theory Spec2Isabelle
  imports Main "HOL-Library.Word" "HOL-Library.Extended_Nat"
begin

unbundle bit_operations_syntax

section \<open>Identifiers, contacts and the XOR metric\<close>

text \<open>
  A node id is a \<open>Uint8Array\<close>: a list of bytes. \<open>Buffer.compare(a, b) == 0\<close> holds
  exactly when the two arrays hold the same bytes, which is equality of the lists.
\<close>

type_synonym NodeId = "8 word list"

text \<open>A \<open>DhtNode\<close> object is referred to by its position in the list of all nodes.\<close>

type_synonym NodeRef = nat

text \<open>
  \<open>new Contact(id, dhtNode)\<close>. \<open>DhtNode.ts\<close> reads the field \<open>dhtNode\<close> through a
  non-null assertion (\<open>contact.dhtNode!\<close>), so the field may be absent.
\<close>

record Contact =
  contact_id :: NodeId
  dhtNode :: "NodeRef option"

text \<open>
  Modelled from the spec: the distance between two ids, missing from the sources with
  \<open>Contact.ts\<close> and \<open>SortedContactList.ts\<close>. The spec: the XOR of the ids,
  interpreted as an unsigned integer. The bytes are read most significant first; where
  one id is longer, each byte without a partner counts as 255.
\<close>

fun distanceFrom :: "nat \<Rightarrow> NodeId \<Rightarrow> NodeId \<Rightarrow> nat" where
  "distanceFrom acc [] [] = acc"
| "distanceFrom acc (a # as) (b # bs) = distanceFrom (acc * 256 + unat (a XOR b)) as bs"
| "distanceFrom acc (a # as) [] = distanceFrom (acc * 256 + 255) as []"
| "distanceFrom acc [] (b # bs) = distanceFrom (acc * 256 + 255) [] bs"

definition distance :: "NodeId \<Rightarrow> NodeId \<Rightarrow> nat" where
  "distance a b = distanceFrom 0 a b"

section \<open>Constants of \<open>DhtNode\<close>\<close>

definition K :: nat where
  "K = 8"

definition ALPHA :: nat where
  "ALPHA = 3"

section \<open>SortedContactList\<close>

text \<open>
  Modelled from the spec: \<open>SortedContactList.ts\<close> is imported by \<open>DhtNode.ts\<close> and is
  not among the sources. The spec (sections 3 and 4.1): an ordered sequence of contacts,
  bounded to \<open>K\<close> entries, sorted ascending by distance to an owner id; each entry carries
  the flags \<open>contacted\<close> and \<open>active\<close>.
\<close>

record ContactState =
  contact :: Contact
  contacted :: bool
  active :: bool

record SortedContactList =
  listOwnId :: NodeId
  contacts :: "ContactState list"

definition newSortedContactList :: "NodeId \<Rightarrow> SortedContactList" where
  "newSortedContactList own = \<lparr>listOwnId = own, contacts = []\<rparr>"

definition entryId :: "ContactState \<Rightarrow> NodeId" where
  "entryId e = contact_id (contact e)"

text \<open>
  Modelled from the spec: insertion that preserves the sort order. A new entry goes
  before the first entry that is strictly farther from the owner, so entries at equal
  distance keep the order in which they were added.
\<close>

fun insertSorted :: "NodeId \<Rightarrow> ContactState \<Rightarrow> ContactState list \<Rightarrow> ContactState list" where
  "insertSorted own x [] = [x]"
| "insertSorted own x (y # ys) =
     (if distance own (entryId x) < distance own (entryId y) then x # y # ys
      else y # insertSorted own x ys)"

text \<open>
  Modelled from the spec: \<open>addContact(c)\<close> inserts preserving sort order; no-op if the
  id is already present; evicts the farthest entry if the size exceeds \<open>K\<close> after
  insertion.
\<close>

definition evict :: "ContactState list \<Rightarrow> ContactState list" where
  "evict xs = (if K < length xs then butlast xs else xs)"

definition addContact :: "Contact \<Rightarrow> SortedContactList \<Rightarrow> SortedContactList" where
  "addContact c l =
     (if contact_id c \<in> set (map entryId (contacts l)) then l
      else l\<lparr>contacts :=
             evict (insertSorted (listOwnId l)
                      \<lparr>contact = c, contacted = False, active = False\<rparr> (contacts l))\<rparr>)"

text \<open>Modelled from the spec: \<open>addContacts(list)\<close> applies \<open>addContact\<close> for each, in order.\<close>

definition addContacts :: "Contact list \<Rightarrow> SortedContactList \<Rightarrow> SortedContactList" where
  "addContacts cs l = fold addContact cs l"

text \<open>
  Modelled from the spec: \<open>getUncontactedContacts(limit)\<close> returns up to \<open>limit\<close>
  entries with \<open>contacted = false\<close>, in ascending distance order.
\<close>

definition getUncontactedContacts :: "nat \<Rightarrow> SortedContactList \<Rightarrow> Contact list" where
  "getUncontactedContacts limit l =
     take limit (map contact (filter (\<lambda>e. \<not> contacted e) (contacts l)))"

text \<open>
  Modelled from the spec: \<open>setContacted(id)\<close> and \<open>setActive(id)\<close> mark the flag of
  the entry with that id; no-op if the id is absent.
\<close>

definition setContacted :: "NodeId \<Rightarrow> SortedContactList \<Rightarrow> SortedContactList" where
  "setContacted i l =
     l\<lparr>contacts := map (\<lambda>e. if entryId e = i then e\<lparr>contacted := True\<rparr> else e) (contacts l)\<rparr>"

definition setActive :: "NodeId \<Rightarrow> SortedContactList \<Rightarrow> SortedContactList" where
  "setActive i l =
     l\<lparr>contacts := map (\<lambda>e. if entryId e = i then e\<lparr>active := True\<rparr> else e) (contacts l)\<rparr>"

text \<open>
  Modelled from the spec: \<open>getClosestContactId()\<close> returns the id of the entry at
  index 0, or a sentinel (\<open>None\<close>) if the list is empty.
\<close>

definition getClosestContactId :: "SortedContactList \<Rightarrow> NodeId option" where
  "getClosestContactId l = (case contacts l of [] \<Rightarrow> None | e # _ \<Rightarrow> Some (entryId e))"

text \<open>Modelled from the spec: \<open>getActiveContacts()\<close> filters where \<open>active = true\<close>.\<close>

definition getActiveContacts :: "SortedContactList \<Rightarrow> Contact list" where
  "getActiveContacts l = map contact (filter active (contacts l))"

section \<open>The k-bucket\<close>

text \<open>
  \<open>KBucket\<close> comes from the package \<open>k-bucket\<close>, which is not part of the repository.
  \<open>DhtNode\<close> calls three of its methods: \<open>add(contact)\<close>, \<open>get(id)\<close> and
  \<open>closest(id, n)\<close>, the last one also without \<open>n\<close>. They are parameters of the
  model: \<open>'b\<close> is the state of a bucket, \<open>kb_closest\<close> takes \<open>None\<close> where the
  call passes no \<open>n\<close>.
\<close>

record 'b KBucketOps =
  kb_add :: "Contact \<Rightarrow> 'b \<Rightarrow> 'b"
  kb_get :: "NodeId \<Rightarrow> 'b \<Rightarrow> Contact option"
  kb_closest :: "NodeId \<Rightarrow> nat option \<Rightarrow> 'b \<Rightarrow> Contact list"

section \<open>DhtNode\<close>

record 'b DhtNode =
  bucket :: 'b
  ownId :: NodeId
  numberOfIncomingRpcCalls :: nat
  numberOfOutgoingRpcCalls :: nat
  neighborList :: SortedContactList

text \<open>The field \<open>ownContact\<close> is \<open>new Contact(this.ownId, this)\<close> and never changes.\<close>

definition getContact :: "NodeRef \<Rightarrow> 'b DhtNode \<Rightarrow> Contact" where
  "getContact self n = \<lparr>contact_id = ownId n, dhtNode = Some self\<rparr>"

text \<open>
  \<open>getClosestNodesTo(id, caller)\<close>, run on the node \<open>n\<close>: the returned contacts and the
  node afterwards.
\<close>

definition getClosestNodesTo ::
  "'b KBucketOps \<Rightarrow> NodeId \<Rightarrow> NodeRef \<Rightarrow> 'b DhtNode \<Rightarrow> Contact list \<times> 'b DhtNode" where
  "getClosestNodesTo ops i caller n =
     (let n1 = n\<lparr>numberOfIncomingRpcCalls := numberOfIncomingRpcCalls n + 1\<rparr>;
          ret = kb_closest ops i None (bucket n1)
      in if kb_get ops i (bucket n1) = None
         then let c = \<lparr>contact_id = i, dhtNode = Some caller\<rparr>
              in (ret, n1\<lparr>bucket := kb_add ops c (bucket n1),
                          neighborList := addContact c (neighborList n1)\<rparr>)
         else (ret, n1))"

text \<open>
  The nodes of a simulation are the elements of a list; a \<open>NodeRef\<close> is an index into
  it. A JavaScript reference always denotes an object, so a reference outside the list
  has no counterpart in the program: the model answers \<open>InvalidRef\<close> there. A call
  through an absent \<open>dhtNode\<close> field throws a \<open>TypeError\<close>.
\<close>

datatype error = TypeError | InvalidRef

text \<open>
  The body of the \<open>forEach\<close> in \<open>findMoreContacts\<close>, for one contact. The argument
  \<open>shortlist\<close> is \<open>this.neighborList\<close> at both call sites, so the node's own list is
  the one updated. The callee may be the calling node itself; the store is therefore
  read again after the call returns.
\<close>

definition addReturnedContacts :: "'b KBucketOps \<Rightarrow> Contact list \<Rightarrow> 'b \<Rightarrow> 'b" where
  "addReturnedContacts ops returnedContacts b =
     fold (\<lambda>returnedContact b'.
             if kb_get ops (contact_id returnedContact) b' = None
             then kb_add ops returnedContact b' else b')
          returnedContacts b"

definition findMoreContactsFrom ::
  "'b KBucketOps \<Rightarrow> NodeRef \<Rightarrow> Contact \<Rightarrow> 'b DhtNode list \<Rightarrow> error + 'b DhtNode list" where
  "findMoreContactsFrom ops self c net =
     (if \<not> self < length net then Inl InvalidRef
      else
        let me = net ! self;
            me1 = me\<lparr>neighborList :=
                       setActive (contact_id c) (setContacted (contact_id c) (neighborList me)),
                     numberOfOutgoingRpcCalls := numberOfOutgoingRpcCalls me + 1\<rparr>;
            net1 = net[self := me1]
        in case dhtNode c of
             None \<Rightarrow> Inl TypeError
           | Some h \<Rightarrow>
               if \<not> h < length net1 then Inl InvalidRef
               else
                 let (returnedContacts, callee) =
                       getClosestNodesTo ops (ownId me1) self (net1 ! h);
                     net2 = net1[h := callee];
                     me2 = net2 ! self;
                     me3 = me2\<lparr>neighborList := addContacts returnedContacts (neighborList me2)\<rparr>;
                     me4 = me3\<lparr>bucket := addReturnedContacts ops returnedContacts (bucket me3)\<rparr>
                 in Inr (net2[self := me4]))"

fun findMoreContacts ::
  "'b KBucketOps \<Rightarrow> NodeRef \<Rightarrow> Contact list \<Rightarrow> 'b DhtNode list \<Rightarrow> error + 'b DhtNode list" where
  "findMoreContacts ops self [] net = Inr net"
| "findMoreContacts ops self (c # cs) net =
     (case findMoreContactsFrom ops self c net of
        Inl e \<Rightarrow> Inl e
      | Inr net' \<Rightarrow> findMoreContacts ops self cs net')"

text \<open>What the node \<open>self\<close> reads from its own neighbor list.\<close>

definition closestContactId :: "NodeRef \<Rightarrow> 'b DhtNode list \<Rightarrow> NodeId option" where
  "closestContactId self net = getClosestContactId (neighborList (net ! self))"

definition uncontacted :: "nat \<Rightarrow> NodeRef \<Rightarrow> 'b DhtNode list \<Rightarrow> Contact list" where
  "uncontacted limit self net = getUncontactedContacts limit (neighborList (net ! self))"

definition activeCount :: "NodeRef \<Rightarrow> 'b DhtNode list \<Rightarrow> nat" where
  "activeCount self net = length (getActiveContacts (neighborList (net ! self)))"

text \<open>
  The inner \<open>while (true)\<close> of \<open>joinDht\<close>. The source compares the two ids with
  \<open>==\<close>, the identity of the arrays; a list without duplicate ids holds one array per
  id, so this is equality of the ids. \<open>None\<close> stands for a loop that never returns.
\<close>

partial_function (option) joinDhtInner ::
  "'b KBucketOps \<Rightarrow> NodeRef \<Rightarrow> Contact list \<Rightarrow> 'b DhtNode list
     \<Rightarrow> (error + 'b DhtNode list) option" where
  "joinDhtInner ops self uncontactedContacts net =
     (let oldClosestContactId = closestContactId self net
      in case findMoreContacts ops self uncontactedContacts net of
           Inl e \<Rightarrow> Some (Inl e)
         | Inr net' \<Rightarrow>
             if K \<le> activeCount self net' \<or> oldClosestContactId = closestContactId self net'
             then Some (Inr net')
             else joinDhtInner ops self (uncontacted ALPHA self net') net')"

declare joinDhtInner.simps [code]

text \<open>The outer \<open>while (true)\<close> of \<open>joinDht\<close>.\<close>

partial_function (option) joinDhtOuter ::
  "'b KBucketOps \<Rightarrow> NodeRef \<Rightarrow> 'b DhtNode list \<Rightarrow> (error + 'b DhtNode list) option" where
  "joinDhtOuter ops self net =
     (let oldClosestContactId = closestContactId self net
      in case findMoreContacts ops self (uncontacted ALPHA self net) net of
           Inl e \<Rightarrow> Some (Inl e)
         | Inr net' \<Rightarrow>
             if oldClosestContactId = closestContactId self net'
             then joinDhtInner ops self (uncontacted K self net') net'
             else joinDhtOuter ops self net')"

declare joinDhtOuter.simps [code]

text \<open>The statements of \<open>joinDht\<close> before the loop.\<close>

definition joinDhtInit :: "'b KBucketOps \<Rightarrow> NodeRef \<Rightarrow> NodeRef \<Rightarrow> 'b DhtNode list \<Rightarrow> 'b DhtNode list" where
  "joinDhtInit ops self entryPoint net =
     (let me = net ! self;
          b = kb_add ops (getContact entryPoint (net ! entryPoint)) (bucket me);
          closest = kb_closest ops (ownId me) (Some ALPHA) b
      in net[self := me\<lparr>bucket := b,
                        neighborList := addContacts closest (neighborList me)\<rparr>])"

definition joinDht ::
  "'b KBucketOps \<Rightarrow> NodeRef \<Rightarrow> NodeRef \<Rightarrow> 'b DhtNode list \<Rightarrow> (error + 'b DhtNode list) option" where
  "joinDht ops self entryPoint net =
     (if \<not> (self < length net \<and> entryPoint < length net) then Some (Inl InvalidRef)
      else if contact_id (getContact entryPoint (net ! entryPoint)) = ownId (net ! self)
      then Some (Inr net)
      else joinDhtOuter ops self (joinDhtInit ops self entryPoint net))"

section \<open>An implementation of the k-bucket\<close>

text \<open>
  The behaviour of the package \<open>k-bucket\<close> (its methods \<open>add\<close>, \<open>get\<close> and
  \<open>closest\<close>, with the defaults \<open>DhtNode\<close> leaves in place), so that the definitions
  above can be run on concrete networks. The bucket is a binary tree. A leaf
  holds up to \<open>numberOfNodesPerKBucket\<close> contacts and the flag \<open>dontSplit\<close>; an inner
  node has a \<open>left\<close> and a \<open>right\<close> child, chosen by one bit of the id.
\<close>

datatype KBucketNode = Leaf "Contact list" bool | Inner KBucketNode KBucketNode

record KBucket =
  localNodeId :: NodeId
  numberOfNodesPerKBucket :: nat
  root :: KBucketNode

text \<open>\<open>new KBucket({localNodeId, numberOfNodesPerKBucket})\<close>: one empty leaf.\<close>

definition newKBucket :: "NodeId \<Rightarrow> nat \<Rightarrow> KBucket" where
  "newKBucket own k = \<lparr>localNodeId = own, numberOfNodesPerKBucket = k, root = Leaf [] False\<rparr>"

text \<open>
  \<open>_determineNode\<close>: \<open>True\<close> for the right child. The bit \<open>bitIndex\<close> of the id is
  counted from the most significant bit of the first byte; an id that is too short goes
  left.
\<close>

definition determineRight :: "NodeId \<Rightarrow> nat \<Rightarrow> bool" where
  "determineRight i bitIndex =
     (let bytesDescribedByBitIndex = bitIndex div 8;
          bitIndexWithinByte = bitIndex mod 8
      in if length i \<le> bytesDescribedByBitIndex then False
         else bit (i ! bytesDescribedByBitIndex) (7 - bitIndexWithinByte))"

text \<open>
  \<open>_split\<close>: the contacts of a full leaf go to two new leaves by the bit \<open>bitIndex\<close>
  of their ids; the leaf on the side where the local id does not fall is marked
  \<open>dontSplit\<close>.
\<close>

definition split :: "NodeId \<Rightarrow> nat \<Rightarrow> Contact list \<Rightarrow> KBucketNode" where
  "split own bitIndex cs =
     Inner (Leaf (filter (\<lambda>c. \<not> determineRight (contact_id c) bitIndex) cs)
                 (determineRight own bitIndex))
           (Leaf (filter (\<lambda>c. determineRight (contact_id c) bitIndex) cs)
                 (\<not> determineRight own bitIndex))"

text \<open>
  \<open>_update\<close> with the default arbiter, which keeps the incumbent only when its
  vector clock is the greater one. The contacts of the model carry no vector clock, so
  the candidate wins: the incumbent is removed and the candidate appended.
\<close>

definition update :: "Contact \<Rightarrow> Contact list \<Rightarrow> Contact list" where
  "update c cs = filter (\<lambda>x. contact_id x \<noteq> contact_id c) cs @ [c]"

text \<open>
  \<open>add\<close>, below the node reached at \<open>bitIndex\<close>. A contact whose id is present is
  updated; a leaf with room takes the contact; a full leaf marked \<open>dontSplit\<close> stays as
  it is (the package emits \<open>ping\<close>, to which \<open>DhtNode\<close> does not listen); any other full
  leaf is split and the contact added again. The package repeats the last step without
  a bound; it ends once two ids of the leaf differ in a bit, which for ids of \<open>n\<close> bytes
  happens within \<open>8 * n\<close> splits. The model counts the splits down from
  \<open>splits\<close> and leaves the leaf as it is when none is left.
\<close>

fun addNode :: "nat \<Rightarrow> nat \<Rightarrow> NodeId \<Rightarrow> nat \<Rightarrow> Contact \<Rightarrow> KBucketNode \<Rightarrow> KBucketNode" where
  "addNode splits k own bitIndex c (Inner l r) =
     (if determineRight (contact_id c) bitIndex
      then Inner l (addNode splits k own (bitIndex + 1) c r)
      else Inner (addNode splits k own (bitIndex + 1) c l) r)"
| "addNode splits k own bitIndex c (Leaf cs ds) =
     (if contact_id c \<in> set (map contact_id cs) then Leaf (update c cs) ds
      else if length cs < k then Leaf (cs @ [c]) ds
      else if ds then Leaf cs ds
      else (case splits of
              0 \<Rightarrow> Leaf cs ds
            | Suc m \<Rightarrow> addNode m k own bitIndex c (split own bitIndex cs)))"

fun nodeContacts :: "KBucketNode \<Rightarrow> Contact list" where
  "nodeContacts (Leaf cs ds) = cs"
| "nodeContacts (Inner l r) = nodeContacts l @ nodeContacts r"

definition add :: "Contact \<Rightarrow> KBucket \<Rightarrow> KBucket" where
  "add c b =
     b\<lparr>root := addNode (8 * Max (set (map (length \<circ> contact_id) (c # nodeContacts (root b)))) + 1)
                        (numberOfNodesPerKBucket b) (localNodeId b) 0 c (root b)\<rparr>"

text \<open>\<open>get\<close>: the contact with this id in the leaf where the id belongs, if any.\<close>

fun getNode :: "nat \<Rightarrow> NodeId \<Rightarrow> KBucketNode \<Rightarrow> Contact option" where
  "getNode bitIndex i (Inner l r) =
     (if determineRight i bitIndex then getNode (bitIndex + 1) i r
      else getNode (bitIndex + 1) i l)"
| "getNode bitIndex i (Leaf cs ds) = find (\<lambda>c. contact_id c = i) cs"

definition get :: "NodeId \<Rightarrow> KBucket \<Rightarrow> Contact option" where
  "get i b = getNode 0 i (root b)"

text \<open>
  \<open>KBucket.distance\<close>, the package's default metric, by which \<open>closest\<close> sorts. It
  runs \<open>distance = distance * 256 + (a[i] ^ b[i])\<close> over the common length of the two
  ids and \<open>distance = distance * 256 + 255\<close> over the rest, on JavaScript numbers:
  every sum is rounded to the nearest number with a significand of 53 bits, a tie going
  to the even significand, and a product of \<open>2 ^ 1024\<close> or more (a factor of 1017 bits or more) is \<open>Infinity\<close>. Up
  to six bytes the result is the exact XOR distance; for longer ids, two ids whose
  exact distances differ can have the same \<open>KBucket.distance\<close>.
\<close>

function bitLength :: "nat \<Rightarrow> nat" where
  "bitLength n = (if n = 0 then 0 else Suc (bitLength (n div 2)))"
  by pat_completeness auto
termination
  by (relation "measure (\<lambda>n. n)") auto

declare bitLength.simps [simp del]

definition roundToDouble :: "nat \<Rightarrow> nat" where
  "roundToDouble n =
     (if bitLength n \<le> 53 then n
      else
        let e = bitLength n - 53;
            q = n div 2 ^ e;
            r = n mod 2 ^ e;
            half = 2 ^ (e - 1)
        in if r < half \<or> (r = half \<and> even q) then q * 2 ^ e else (q + 1) * 2 ^ e)"

definition timesPlus :: "enat \<Rightarrow> nat \<Rightarrow> enat" where
  "timesPlus d x =
     (case d of
        enat m \<Rightarrow> if 1017 \<le> bitLength m then \<infinity> else enat (roundToDouble (m * 256 + x))
      | \<infinity> \<Rightarrow> \<infinity>)"

fun kbucketDistanceFrom :: "enat \<Rightarrow> NodeId \<Rightarrow> NodeId \<Rightarrow> enat" where
  "kbucketDistanceFrom d [] [] = d"
| "kbucketDistanceFrom d (a # as) (b # bs) = kbucketDistanceFrom (timesPlus d (unat (a XOR b))) as bs"
| "kbucketDistanceFrom d (a # as) [] = kbucketDistanceFrom (timesPlus d 255) as []"
| "kbucketDistanceFrom d [] (b # bs) = kbucketDistanceFrom (timesPlus d 255) [] bs"

definition kbucketDistance :: "NodeId \<Rightarrow> NodeId \<Rightarrow> enat" where
  "kbucketDistance a b = kbucketDistanceFrom 0 a b"

text \<open>
  \<open>closest(id, n)\<close>: the nodes are visited from a stack, the child where \<open>id\<close> belongs
  first, until \<open>n\<close> contacts are gathered; the contacts are then sorted by their
  \<open>KBucket.distance\<close> to \<open>id\<close> (a stable sort: contacts at the same distance keep the
  order in which they were gathered; the comparison of two \<open>Infinity\<close> is that of
  equals) and cut to \<open>n\<close>. Without \<open>n\<close> the bound is \<open>Infinity\<close>: every leaf is
  visited and nothing is cut.
\<close>

definition reached :: "nat option \<Rightarrow> nat \<Rightarrow> bool" where
  "reached n m = (case n of None \<Rightarrow> False | Some n' \<Rightarrow> n' \<le> m)"

function closestLoop :: "NodeId \<Rightarrow> nat option \<Rightarrow> KBucketNode list \<Rightarrow> nat \<Rightarrow> Contact list \<Rightarrow> Contact list" where
  "closestLoop i n [] bitIndex acc = acc"
| "closestLoop i n (Leaf cs ds # nodes) bitIndex acc =
     (if reached n (length acc) then acc else closestLoop i n nodes bitIndex (acc @ cs))"
| "closestLoop i n (Inner l r # nodes) bitIndex acc =
     (if reached n (length acc) then acc
      else if determineRight i bitIndex
      then closestLoop i n (r # l # nodes) (bitIndex + 1) acc
      else closestLoop i n (l # r # nodes) (bitIndex + 1) acc)"
  by pat_completeness auto
termination
  by (relation "measure (\<lambda>(i, n, nodes, bitIndex, acc). sum_list (map (\<lambda>t. 2 * size t + 1) nodes))") auto

definition closest :: "NodeId \<Rightarrow> nat option \<Rightarrow> KBucket \<Rightarrow> Contact list" where
  "closest i n b =
     (let sorted = sort_key (\<lambda>c. kbucketDistance (contact_id c) i) (closestLoop i n [root b] 0 [])
      in case n of None \<Rightarrow> sorted | Some n' \<Rightarrow> take n' sorted)"

definition kbucket :: "KBucket KBucketOps" where
  "kbucket = \<lparr>kb_add = add, kb_get = get, kb_closest = closest\<rparr>"

text \<open>\<open>new DhtNode(ownId)\<close>.\<close>

definition newDhtNode :: "NodeId \<Rightarrow> KBucket DhtNode" where
  "newDhtNode own =
     \<lparr>bucket = newKBucket own K, ownId = own,
      numberOfIncomingRpcCalls = 0, numberOfOutgoingRpcCalls = 0,
      neighborList = newSortedContactList own\<rparr>"

text \<open>
  The contacts below a node are where \<open>get\<close> looks for them: at an inner node reached
  at \<open>bitIndex\<close>, the contacts of the left child have that bit clear and those of the
  right child have it set.
\<close>

fun routed :: "nat \<Rightarrow> KBucketNode \<Rightarrow> bool" where
  "routed bitIndex (Leaf cs ds) = True"
| "routed bitIndex (Inner l r) =
     ((\<forall>c\<in>set (nodeContacts l). \<not> determineRight (contact_id c) bitIndex) \<and>
      (\<forall>c\<in>set (nodeContacts r). determineRight (contact_id c) bitIndex) \<and>
      routed (bitIndex + 1) l \<and> routed (bitIndex + 1) r)"

section \<open>The probe rounds of a join\<close>

text \<open>
  A probe round is one call of \<open>findMoreContacts\<close> from \<open>joinDht\<close>. The round records
  the limit that was given to \<open>getUncontactedContacts\<close> to choose the contacts, the
  contacts, and the nodes before and after the call.
\<close>

record 'b ProbeRound =
  roundLimit :: nat
  probed :: "Contact list"
  roundBefore :: "'b DhtNode list"
  roundAfter :: "'b DhtNode list"

definition closestChanged :: "NodeRef \<Rightarrow> 'b ProbeRound \<Rightarrow> bool" where
  "closestChanged self r =
     (closestContactId self (roundBefore r) \<noteq> closestContactId self (roundAfter r))"

text \<open>
  The two loops of \<open>joinDht\<close> once more, returning the rounds they ran next to their
  result. The inner loop receives the limit from which its first list of contacts was
  computed in place of the list.
\<close>

partial_function (option) joinDhtInnerRounds ::
  "'b KBucketOps \<Rightarrow> NodeRef \<Rightarrow> nat \<Rightarrow> 'b DhtNode list
     \<Rightarrow> ('b ProbeRound list \<times> (error + 'b DhtNode list)) option" where
  "joinDhtInnerRounds ops self limit net =
     (case findMoreContacts ops self (uncontacted limit self net) net of
        Inl e \<Rightarrow> Some ([], Inl e)
      | Inr net' \<Rightarrow>
          let r = \<lparr>roundLimit = limit, probed = uncontacted limit self net,
                   roundBefore = net, roundAfter = net'\<rparr>
          in if K \<le> activeCount self net' \<or> closestContactId self net = closestContactId self net'
             then Some ([r], Inr net')
             else Option.bind (joinDhtInnerRounds ops self ALPHA net')
                    (\<lambda>(rs, res). Some (r # rs, res)))"

declare joinDhtInnerRounds.simps [code]

partial_function (option) joinDhtOuterRounds ::
  "'b KBucketOps \<Rightarrow> NodeRef \<Rightarrow> 'b DhtNode list
     \<Rightarrow> ('b ProbeRound list \<times> (error + 'b DhtNode list)) option" where
  "joinDhtOuterRounds ops self net =
     (case findMoreContacts ops self (uncontacted ALPHA self net) net of
        Inl e \<Rightarrow> Some ([], Inl e)
      | Inr net' \<Rightarrow>
          let r = \<lparr>roundLimit = ALPHA, probed = uncontacted ALPHA self net,
                   roundBefore = net, roundAfter = net'\<rparr>
          in Option.bind
               (if closestContactId self net = closestContactId self net'
                then joinDhtInnerRounds ops self K net'
                else joinDhtOuterRounds ops self net')
               (\<lambda>(rs, res). Some (r # rs, res)))"

declare joinDhtOuterRounds.simps [code]

definition joinDhtRounds ::
  "'b KBucketOps \<Rightarrow> NodeRef \<Rightarrow> NodeRef \<Rightarrow> 'b DhtNode list
     \<Rightarrow> ('b ProbeRound list \<times> (error + 'b DhtNode list)) option" where
  "joinDhtRounds ops self entryPoint net =
     (if \<not> (self < length net \<and> entryPoint < length net) then Some ([], Inl InvalidRef)
      else if contact_id (getContact entryPoint (net ! entryPoint)) = ownId (net ! self)
      then Some ([], Inr net)
      else joinDhtOuterRounds ops self (joinDhtInit ops self entryPoint net))"

text \<open>Rounds that follow one another from the nodes \<open>s\<close> to the nodes \<open>t\<close>.\<close>

fun chained :: "'b DhtNode list \<Rightarrow> 'b ProbeRound list \<Rightarrow> 'b DhtNode list \<Rightarrow> bool" where
  "chained s [] t = (s = t)"
| "chained s (r # rs) t = (roundBefore r = s \<and> chained (roundAfter r) rs t)"

text \<open>
  The distance from the owner of a list to its closest contact; \<open>\<infinity>\<close> for a list
  without contacts.
\<close>

definition closestDistance :: "SortedContactList \<Rightarrow> enat" where
  "closestDistance l =
     (case getClosestContactId l of
        None \<Rightarrow> \<infinity>
      | Some i \<Rightarrow> enat (distance (listOwnId l) i))"

text \<open>
  The order in which the loops of \<open>joinDht\<close> descend, and what every operation on a
  neighbor list does to its first entry: it stays, or a closer one takes its place.
\<close>

definition closer :: "SortedContactList \<Rightarrow> SortedContactList \<Rightarrow> bool" where
  "closer l' l = (closestDistance l' < closestDistance l)"

definition advances :: "SortedContactList \<Rightarrow> SortedContactList \<Rightarrow> bool" where
  "advances l l' =
     (listOwnId l' = listOwnId l \<and>
      (getClosestContactId l' = getClosestContactId l \<or> closer l' l))"

definition roundOrder :: "NodeRef \<Rightarrow> ('b DhtNode list \<times> 'b DhtNode list) set" where
  "roundOrder self = inv_image {(l', l). closer l' l} (\<lambda>net. neighborList (net ! self))"

text \<open>
  A recorded round is complete when its contacts are those that
  \<open>getUncontactedContacts\<close> gave for its limit and \<open>findMoreContacts\<close> returned from
  them. \<open>returnsAfter\<close> is the test by which the inner loop returns after a round.
\<close>

definition completeRound :: "'b KBucketOps \<Rightarrow> NodeRef \<Rightarrow> 'b ProbeRound \<Rightarrow> bool" where
  "completeRound ops self r =
     (probed r = uncontacted (roundLimit r) self (roundBefore r) \<and>
      findMoreContacts ops self (probed r) (roundBefore r) = Inr (roundAfter r))"

definition returnsAfter :: "NodeRef \<Rightarrow> 'b ProbeRound \<Rightarrow> bool" where
  "returnsAfter self r =
     (K \<le> activeCount self (roundAfter r) \<or> \<not> closestChanged self r)"

text \<open>
  The rounds of the inner loop, entered with the limit \<open>limit\<close>: the first round uses
  that limit, the later ones \<open>ALPHA\<close>, and the loop returns after the first round that
  passes its test.
\<close>

definition innerRounds ::
  "'b KBucketOps \<Rightarrow> NodeRef \<Rightarrow> nat \<Rightarrow> 'b DhtNode list \<Rightarrow> 'b ProbeRound list
     \<Rightarrow> 'b DhtNode list \<Rightarrow> bool" where
  "innerRounds ops self limit s rs t =
     (rs \<noteq> [] \<and> roundLimit (hd rs) = limit \<and> (\<forall>r\<in>set (tl rs). roundLimit r = ALPHA) \<and>
      (\<forall>r\<in>set rs. completeRound ops self r) \<and> chained s rs t \<and>
      (\<forall>r\<in>set (butlast rs). \<not> returnsAfter self r) \<and> returnsAfter self (last rs))"

text \<open>
  The rounds of the outer loop: rounds with the limit \<open>ALPHA\<close>, each but the last
  changing the closest contact id; after the last, the rounds of the inner loop entered
  with the limit \<open>K\<close>.
\<close>

definition outerRounds ::
  "'b KBucketOps \<Rightarrow> NodeRef \<Rightarrow> 'b DhtNode list \<Rightarrow> 'b ProbeRound list
     \<Rightarrow> 'b ProbeRound list \<Rightarrow> 'b DhtNode list \<Rightarrow> bool" where
  "outerRounds ops self s as bs t =
     (as \<noteq> [] \<and> (\<forall>r\<in>set as. roundLimit r = ALPHA \<and> completeRound ops self r) \<and>
      chained s as (roundAfter (last as)) \<and>
      (\<forall>r\<in>set (butlast as). closestChanged self r) \<and> \<not> closestChanged self (last as) \<and>
      innerRounds ops self K (roundAfter (last as)) bs t)"

text \<open>
  The join as section 4.2 of the spec describes it, for comparison with \<open>joinDht\<close>:
  once the search is widened, every round probes up to \<open>K\<close> uncontacted contacts,
  where the inner loop of \<open>joinDht\<close> goes back to \<open>ALPHA\<close>.
\<close>

partial_function (option) joinDhtInnerWidened ::
  "'b KBucketOps \<Rightarrow> NodeRef \<Rightarrow> 'b DhtNode list \<Rightarrow> (error + 'b DhtNode list) option" where
  "joinDhtInnerWidened ops self net =
     (case findMoreContacts ops self (uncontacted K self net) net of
        Inl e \<Rightarrow> Some (Inl e)
      | Inr net' \<Rightarrow>
          if K \<le> activeCount self net' \<or> closestContactId self net = closestContactId self net'
          then Some (Inr net')
          else joinDhtInnerWidened ops self net')"

declare joinDhtInnerWidened.simps [code]

partial_function (option) joinDhtOuterWidened ::
  "'b KBucketOps \<Rightarrow> NodeRef \<Rightarrow> 'b DhtNode list \<Rightarrow> (error + 'b DhtNode list) option" where
  "joinDhtOuterWidened ops self net =
     (case findMoreContacts ops self (uncontacted ALPHA self net) net of
        Inl e \<Rightarrow> Some (Inl e)
      | Inr net' \<Rightarrow>
          if closestContactId self net = closestContactId self net'
          then joinDhtInnerWidened ops self net'
          else joinDhtOuterWidened ops self net')"

declare joinDhtOuterWidened.simps [code]

definition joinDhtWidened ::
  "'b KBucketOps \<Rightarrow> NodeRef \<Rightarrow> NodeRef \<Rightarrow> 'b DhtNode list \<Rightarrow> (error + 'b DhtNode list) option" where
  "joinDhtWidened ops self entryPoint net =
     (if \<not> (self < length net \<and> entryPoint < length net) then Some (Inl InvalidRef)
      else if contact_id (getContact entryPoint (net ! entryPoint)) = ownId (net ! self)
      then Some (Inr net)
      else joinDhtOuterWidened ops self (joinDhtInit ops self entryPoint net))"

section \<open>A network of seven nodes\<close>

text \<open>
  Nodes with one-byte ids, so that the distance to the node with id 0 is the id itself.
  Node 0 joins through node 1 (id 16), which knows the nodes with ids 8, 9, 10 and 11;
  the node with id 11 knows the node with id 1.
\<close>

definition contactOf :: "NodeRef \<Rightarrow> 8 word \<Rightarrow> Contact" where
  "contactOf h i = \<lparr>contact_id = [i], dhtNode = Some h\<rparr>"

definition nodeKnowing :: "8 word \<Rightarrow> Contact list \<Rightarrow> KBucket DhtNode" where
  "nodeKnowing i cs = (newDhtNode [i])\<lparr>bucket := fold add cs (newKBucket [i] K)\<rparr>"

definition exampleNet :: "KBucket DhtNode list" where
  "exampleNet =
     [nodeKnowing 0 [],
      nodeKnowing 16 [contactOf 2 8, contactOf 3 9, contactOf 4 10, contactOf 5 11],
      nodeKnowing 8 [], nodeKnowing 9 [], nodeKnowing 10 [],
      nodeKnowing 11 [contactOf 6 1],
      nodeKnowing 1 []]"

text \<open>The nodes after node 0 has joined through node 1.\<close>

definition exampleJoined :: "KBucket DhtNode list" where
  "exampleJoined = projr (the (joinDht kbucket 0 1 exampleNet))"

section \<open>A node that has answered nine callers\<close>

text \<open>
  A new node with id 0 on which the nodes 1 to 9, with the ids 1 to 9, have each called
  \<open>getClosestNodesTo\<close> with their own id, as \<open>findMoreContacts\<close> does.
\<close>

definition answeredNine :: "KBucket DhtNode" where
  "answeredNine =
     fold (\<lambda>k n. snd (getClosestNodesTo kbucket [of_nat k] k n)) [1..<10] (newDhtNode [0])"

section \<open>A node that knows its caller\<close>

text \<open>
  Two new nodes, with the ids 0 and 1. \<open>answeredOne\<close> is node 0 after node 1 has called
  \<open>getClosestNodesTo\<close> on it with its own id, \<open>[1]\<close>.
\<close>

definition pairNet :: "KBucket DhtNode list" where
  "pairNet = [newDhtNode [0], newDhtNode [1]]"

definition answeredOne :: "KBucket DhtNode" where
  "answeredOne = snd (getClosestNodesTo kbucket [1] 1 (pairNet ! 0))"

section \<open>A node that has answered eight distant callers\<close>

text \<open>
  A new node with id 0 on which the nodes 1 to 8, with the ids 128 to 135, have each
  called \<open>getClosestNodesTo\<close> with their own id.
\<close>

definition answeredEightFar :: "KBucket DhtNode" where
  "answeredEightFar =
     fold (\<lambda>k n. snd (getClosestNodesTo kbucket [of_nat (127 + k)] k n)) [1..<9] (newDhtNode [0])"

text \<open>
  Of a round: the limit it probed with, whether it changed the closest contact id of the
  node, and the number of active contacts it left.
\<close>

definition roundSummary :: "NodeRef \<Rightarrow> 'b ProbeRound \<Rightarrow> nat \<times> bool \<times> nat" where
  "roundSummary self r = (roundLimit r, closestChanged self r, activeCount self (roundAfter r))"

definition roundSummaries ::
  "NodeRef \<Rightarrow> ('b ProbeRound list \<times> (error + 'b DhtNode list)) option
     \<Rightarrow> (nat \<times> bool \<times> nat) list option" where
  "roundSummaries self run = map_option (\<lambda>(rs, res). map (roundSummary self) rs) run"

section \<open>A network of eleven nodes\<close>

text \<open>
  As the network of seven nodes, but the node with id 11 knows the nodes with the ids 1
  to 5. After the round that probes it, five uncontacted contacts are in the list of
  node 0, more than \<open>ALPHA\<close>.
\<close>

definition separatingNet :: "KBucket DhtNode list" where
  "separatingNet =
     [nodeKnowing 0 [],
      nodeKnowing 16 [contactOf 2 8, contactOf 3 9, contactOf 4 10, contactOf 5 11],
      nodeKnowing 8 [], nodeKnowing 9 [], nodeKnowing 10 [],
      nodeKnowing 11 [contactOf 6 1, contactOf 7 2, contactOf 8 3, contactOf 9 4, contactOf 10 5],
      nodeKnowing 1 [], nodeKnowing 2 [], nodeKnowing 3 [], nodeKnowing 4 [], nodeKnowing 5 []]"

text \<open>
  Of a run: the ids probed in each round; of a result: the outgoing calls the node has
  made, and the ids of the contacts of its list that are still uncontacted.
\<close>

definition probedIds ::
  "('b ProbeRound list \<times> (error + 'b DhtNode list)) option \<Rightarrow> NodeId list list option" where
  "probedIds run = map_option (\<lambda>(rs, res). map (\<lambda>r. map contact_id (probed r)) rs) run"

definition outgoingCalls :: "NodeRef \<Rightarrow> (error + 'b DhtNode list) option \<Rightarrow> nat option" where
  "outgoingCalls self res =
     (case res of Some (Inr net) \<Rightarrow> Some (numberOfOutgoingRpcCalls (net ! self)) | _ \<Rightarrow> None)"

definition uncontactedIds :: "NodeRef \<Rightarrow> (error + 'b DhtNode list) option \<Rightarrow> NodeId list option" where
  "uncontactedIds self res =
     (case res of Some (Inr net) \<Rightarrow> Some (map contact_id (uncontacted K self net)) | _ \<Rightarrow> None)"

section \<open>Sequences of operations on a SortedContactList\<close>

text \<open>The four mutations of a \<open>SortedContactList\<close>, and a list after a sequence of them.\<close>

datatype ListOp =
    AddContact Contact
  | AddContacts "Contact list"
  | SetContacted NodeId
  | SetActive NodeId

fun applyOp :: "ListOp \<Rightarrow> SortedContactList \<Rightarrow> SortedContactList" where
  "applyOp (AddContact c) l = addContact c l"
| "applyOp (AddContacts cs) l = addContacts cs l"
| "applyOp (SetContacted i) l = setContacted i l"
| "applyOp (SetActive i) l = setActive i l"

definition listAfter :: "NodeId \<Rightarrow> ListOp list \<Rightarrow> SortedContactList" where
  "listAfter own ops = fold applyOp ops (newSortedContactList own)"

definition contactIds :: "SortedContactList \<Rightarrow> NodeId list" where
  "contactIds l = map entryId (contacts l)"

definition contactDistances :: "SortedContactList \<Rightarrow> nat list" where
  "contactDistances l = map (\<lambda>e. distance (listOwnId l) (entryId e)) (contacts l)"

definition newEntry :: "Contact \<Rightarrow> ContactState" where
  "newEntry c = \<lparr>contact = c, contacted = False, active = False\<rparr>"

text \<open>Nine contacts with the ids 2 to 10, added to the list of the node with id 0.\<close>

definition fullList :: SortedContactList where
  "fullList =
     listAfter [0] [AddContacts (map (\<lambda>k. \<lparr>contact_id = [of_nat k], dhtNode = Some k\<rparr>) [2..<11]),
                    SetContacted [3], SetActive [3]]"

text \<open>What the spec demands of a list after every mutation.\<close>

definition listInv :: "SortedContactList \<Rightarrow> bool" where
  "listInv l =
     (length (contacts l) \<le> K \<and> sorted (contactDistances l) \<and> distinct (contactIds l))"

section \<open>The gossip overlay\<close>

text \<open>
  Modelled from the spec: the node logic of the per-partition gossip overlay and the
  tracker are not among the sources; of that part of the repository only the
  integration test \<open>unsubscribe-from-stream.test.ts\<close> is. The definitions of this
  section follow sections 3, 4.3 and 4.4 of the spec. A message identity is
  \<open>(streamId, partition, publisherId, msgChainId, timestamp, sequenceNumber)\<close>.
\<close>

type_synonym PeerId = string

type_synonym StreamPart = "string \<times> nat"

record MessageID =
  streamId :: string
  streamPartition :: nat
  timestamp :: nat
  sequenceNumber :: nat
  publisherId :: string
  msgChainId :: string

record StreamMessage =
  messageId :: MessageID
  content :: string

definition streamPartOf :: "StreamMessage \<Rightarrow> StreamPart" where
  "streamPartOf m = (streamId (messageId m), streamPartition (messageId m))"

text \<open>
  Modelled from the spec: the state of a node. \<open>subscriptions\<close> are the partitions the
  node is subscribed to; \<open>neighbors\<close> maps a partition to the neighbors that carry its
  traffic; \<open>connections\<close> are the peers with an open connection; \<open>dedupCache\<close> is the
  bounded recency set of message identities, most recent first, of at most
  \<open>dedupCapacity\<close> entries; \<open>delivered\<close> are the messages handed to the local
  listeners, in order.
\<close>

record GossipNode =
  subscriptions :: "StreamPart list"
  neighbors :: "StreamPart \<Rightarrow> PeerId list"
  connections :: "PeerId list"
  dedupCache :: "MessageID list"
  dedupCapacity :: nat
  delivered :: "StreamMessage list"

definition newGossipNode :: "nat \<Rightarrow> GossipNode" where
  "newGossipNode capacity =
     \<lparr>subscriptions = [], neighbors = (\<lambda>p. []), connections = [],
      dedupCache = [], dedupCapacity = capacity, delivered = []\<rparr>"

text \<open>
  Modelled from the spec: the atomic check-and-insert on the cache. The answer is
  \<open>True\<close> for an identity that the cache does not hold; the identity then enters the
  cache and the oldest entry leaves a full one.
\<close>

definition checkAndInsert :: "MessageID \<Rightarrow> GossipNode \<Rightarrow> bool \<times> GossipNode" where
  "checkAndInsert i n =
     (if i \<in> set (dedupCache n) then (False, n)
      else (True, n\<lparr>dedupCache := take (dedupCapacity n) (i # dedupCache n)\<rparr>))"

text \<open>
  Modelled from the spec: \<open>publish(message)\<close> on one node, for a message that arrived
  from \<open>source\<close> (\<open>None\<close> for a message published locally): run through the dedup
  cache; if novel, forward to every neighbor on the message's partition except the one
  it arrived from, and deliver to the local listeners if locally subscribed. The result
  is the node afterwards and the neighbors to forward to.
\<close>

definition publish :: "StreamMessage \<Rightarrow> PeerId option \<Rightarrow> GossipNode \<Rightarrow> GossipNode \<times> PeerId list" where
  "publish m source n =
     (let (novel, n1) = checkAndInsert (messageId m) n
      in if \<not> novel then (n1, [])
         else (if streamPartOf m \<in> set (subscriptions n1)
               then n1\<lparr>delivered := delivered n1 @ [m]\<rparr> else n1,
               filter (\<lambda>q. Some q \<noteq> source) (neighbors n1 (streamPartOf m))))"

text \<open>
  Modelled from the spec: the nodes of an overlay and the registry of the tracker, with
  the number of neighbors the tracker hands out.
\<close>

record Overlay =
  peers :: "PeerId \<rightharpoonup> GossipNode"
  registered :: "(PeerId \<times> StreamPart) list"
  neighborCount :: nat

text \<open>
  Modelled from the spec: \<open>getNeighbors\<close> of the tracker returns up to \<open>count\<close> other
  nodes registered for the partition, excluding the requester.
\<close>

definition getNeighbors :: "PeerId \<Rightarrow> StreamPart \<Rightarrow> Overlay \<Rightarrow> PeerId list" where
  "getNeighbors a p ov =
     take (neighborCount ov)
       (map fst (filter (\<lambda>(q, p'). p' = p \<and> q \<noteq> a) (registered ov)))"

text \<open>
  Modelled from the spec: taking a peer as a neighbor on a partition opens or reuses
  the connection to it. \<open>onPeer\<close> applies a change to one node of the overlay.
\<close>

definition addNeighbor :: "PeerId \<Rightarrow> StreamPart \<Rightarrow> GossipNode \<Rightarrow> GossipNode" where
  "addNeighbor q p n =
     n\<lparr>neighbors := (neighbors n)(p := List.insert q (neighbors n p)),
       connections := List.insert q (connections n)\<rparr>"

definition onPeer :: "PeerId \<Rightarrow> (GossipNode \<Rightarrow> GossipNode) \<Rightarrow> Overlay \<Rightarrow> Overlay" where
  "onPeer a f ov =
     (case peers ov a of None \<Rightarrow> ov | Some n \<Rightarrow> ov\<lparr>peers := (peers ov)(a \<mapsto> f n)\<rparr>)"

text \<open>
  Modelled from the spec: \<open>subscribe(streamId, partition)\<close> is a no-op for a subscribed
  partition; else the node registers with the tracker, takes the candidates the
  tracker returns as neighbors on the partition, opening or reusing a connection to
  each, and each candidate takes the node as a neighbor when the subscribe control
  message reaches it.
\<close>

definition subscribe :: "PeerId \<Rightarrow> StreamPart \<Rightarrow> Overlay \<Rightarrow> Overlay" where
  "subscribe a p ov =
     (case peers ov a of
        None \<Rightarrow> ov
      | Some n \<Rightarrow>
          if p \<in> set (subscriptions n) then ov
          else
            let candidates = getNeighbors a p ov;
                ov1 = ov\<lparr>registered := List.insert (a, p) (registered ov)\<rparr>;
                ov2 = onPeer a (\<lambda>n. fold (\<lambda>q. addNeighbor q p)
                                        candidates (n\<lparr>subscriptions := p # subscriptions n\<rparr>)) ov1
            in fold (\<lambda>q. onPeer q (addNeighbor a p)) candidates ov2)"

text \<open>
  Modelled from the spec: a connection to a peer persists as long as at least one
  partition is shared with it.
\<close>

definition sharesPartition :: "PeerId \<Rightarrow> GossipNode \<Rightarrow> bool" where
  "sharesPartition q n = list_ex (\<lambda>p. q \<in> set (neighbors n p)) (subscriptions n)"

definition closeUnshared :: "PeerId \<Rightarrow> GossipNode \<Rightarrow> GossipNode" where
  "closeUnshared q n =
     (if sharesPartition q n then n else n\<lparr>connections := removeAll q (connections n)\<rparr>)"

text \<open>
  Modelled from the spec: what a node does when the unsubscribe control message of
  \<open>b\<close> for \<open>p\<close> reaches it.
\<close>

definition dropNeighbor :: "PeerId \<Rightarrow> StreamPart \<Rightarrow> GossipNode \<Rightarrow> GossipNode" where
  "dropNeighbor b p n =
     closeUnshared b (n\<lparr>neighbors := (neighbors n)(p := removeAll b (neighbors n p))\<rparr>)"

text \<open>
  Modelled from the spec: \<open>unsubscribe(streamId, partition)\<close> sends unsubscribe control
  messages to all neighbors on that partition, removes the partition entry, and for
  each of those neighbors closes the connection if no shared partition remains.
\<close>

definition unsubscribe :: "PeerId \<Rightarrow> StreamPart \<Rightarrow> Overlay \<Rightarrow> Overlay" where
  "unsubscribe b p ov =
     (case peers ov b of
        None \<Rightarrow> ov
      | Some n \<Rightarrow>
          let former = neighbors n p;
              ov1 = ov\<lparr>registered := removeAll (b, p) (registered ov)\<rparr>;
              ov2 = onPeer b (\<lambda>n. fold closeUnshared former
                                    (n\<lparr>subscriptions := removeAll p (subscriptions n),
                                       neighbors := (neighbors n)(p := [])\<rparr>)) ov1
          in fold (\<lambda>q. onPeer q (dropNeighbor b p)) former ov2)"

text \<open>
  Modelled from the spec: a message is gossiped from neighbor to neighbor, each node
  running \<open>publish\<close> on it. \<open>pending\<close> holds the forwards on their way,
  each with its target and the node it comes from. \<open>None\<close> stands for a propagation
  that never ends.
\<close>

partial_function (option) propagate ::
  "(PeerId \<times> PeerId \<times> StreamMessage) list \<Rightarrow> Overlay \<Rightarrow> Overlay option" where
  "propagate pending ov =
     (case pending of
        [] \<Rightarrow> Some ov
      | (target, source, m) # rest \<Rightarrow>
          (case peers ov target of
             None \<Rightarrow> propagate rest ov
           | Some n \<Rightarrow>
               propagate (rest @ map (\<lambda>q. (q, target, m)) (snd (publish m (Some source) n)))
                 (ov\<lparr>peers := (peers ov)(target \<mapsto> fst (publish m (Some source) n))\<rparr>)))"

declare propagate.simps [code]

text \<open>
  Modelled from the spec: \<open>publish(message)\<close> on the node \<open>a\<close> of an overlay, with
  the propagation it starts.
\<close>

definition publishToNode :: "PeerId \<Rightarrow> StreamMessage \<Rightarrow> Overlay \<Rightarrow> Overlay option" where
  "publishToNode a m ov =
     (case peers ov a of
        None \<Rightarrow> Some ov
      | Some n \<Rightarrow>
          propagate (map (\<lambda>q. (q, a, m)) (snd (publish m None n)))
            (ov\<lparr>peers := (peers ov)(a \<mapsto> fst (publish m None n))\<rparr>))"

text \<open>What the listeners of a node have received, as the test prints it.\<close>

definition deliveredTo :: "PeerId \<Rightarrow> Overlay \<Rightarrow> StreamMessage list" where
  "deliveredTo a ov = (case peers ov a of None \<Rightarrow> [] | Some n \<Rightarrow> delivered n)"

text \<open>
  The overlay of \<open>unsubscribe-from-stream.test.ts\<close>: the nodes \<open>a\<close> and \<open>b\<close>, both
  subscribed to the partitions 2 and 1 of the stream \<open>s\<close>, and the two messages that
  \<open>a\<close> publishes.
\<close>

definition testOverlay :: Overlay where
  "testOverlay =
     subscribe ''b'' (''s'', 1) (subscribe ''a'' (''s'', 1)
       (subscribe ''b'' (''s'', 2) (subscribe ''a'' (''s'', 2)
          \<lparr>peers = [''a'' \<mapsto> newGossipNode 100, ''b'' \<mapsto> newGossipNode 100],
           registered = [], neighborCount = 4\<rparr>)))"

definition testMessage :: "nat \<Rightarrow> StreamMessage" where
  "testMessage part =
     \<lparr>messageId = \<lparr>streamId = ''s'', streamPartition = part, timestamp = 0,
                   sequenceNumber = 0, publisherId = ''publisherId'',
                   msgChainId = ''msgChainId''\<rparr>,
      content = ''{}''\<rparr>"

text \<open>The nodes \<open>b\<close> and \<open>a\<close> of that overlay.\<close>

definition testNode :: GossipNode where
  "testNode = the (peers testOverlay ''b'')"

definition testNodeA :: GossipNode where
  "testNodeA = the (peers testOverlay ''a'')"

section \<open>Termination of the join\<close>

lemma wf_closer: "wf {(l', l). closer l' l}"
proof -
  have "{(l', l). closer l' l} = inv_image {(x, y). x < y} closestDistance"
    by (auto simp: closer_def inv_image_def)
  then show ?thesis using wf_inv_image[OF wf, of closestDistance] by simp
qed

lemma advances_refl: "advances l l"
  by (simp add: advances_def)

lemma closestDistance_cong: "listOwnId l' = listOwnId l \<Longrightarrow> getClosestContactId l' = getClosestContactId l \<Longrightarrow> closestDistance l' = closestDistance l"
  unfolding closestDistance_def by (auto split: option.splits)

lemma closer_trans: "closer l'' l' \<Longrightarrow> closer l' l \<Longrightarrow> closer l'' l"
  unfolding closer_def by simp

lemma advances_trans: "advances l l' \<Longrightarrow> advances l' l'' \<Longrightarrow> advances l l''"
proof -
  assume a: "advances l l'" and b: "advances l' l''"
  have own: "listOwnId l'' = listOwnId l" "listOwnId l' = listOwnId l" "listOwnId l'' = listOwnId l'"
    using a b by (simp_all add: advances_def)
  consider (ee) "getClosestContactId l' = getClosestContactId l" "getClosestContactId l'' = getClosestContactId l'"
    | (ec) "getClosestContactId l' = getClosestContactId l" "closer l'' l'"
    | (ce) "closer l' l" "getClosestContactId l'' = getClosestContactId l'"
    | (cc) "closer l' l" "closer l'' l'"
    using a b unfolding advances_def by blast
  then show ?thesis
  proof cases
    case ee
    then show ?thesis using own by (simp add: advances_def)
  next
    case ec
    with closestDistance_cong[OF own(2) ec(1)] show ?thesis using own by (simp add: advances_def closer_def)
  next
    case ce
    with closestDistance_cong[OF own(3) ce(2)] show ?thesis using own by (simp add: advances_def closer_def)
  next
    case cc
    with closer_trans show ?thesis using own unfolding advances_def by blast
  qed
qed

lemma evict_hd: "xs \<noteq> [] \<Longrightarrow> evict xs \<noteq> [] \<and> hd (evict xs) = hd xs"
  by (cases xs; cases "tl xs") (auto simp: evict_def K_def)

lemma insertSorted_hd:
  "insertSorted own x (y # ys) = zs \<Longrightarrow>
     (hd zs = y \<and> zs \<noteq> []) \<or> (hd zs = x \<and> zs \<noteq> [] \<and> distance own (entryId x) < distance own (entryId y))"
  by (auto split: if_splits)

lemma advances_addContact: "advances l (addContact c l)"
proof (cases "contact_id c \<in> set (map entryId (contacts l))")
  case True
  then show ?thesis by (simp add: addContact_def advances_refl)
next
  case False
  let ?x = "\<lparr>contact = c, contacted = False, active = False\<rparr>"
  let ?zs = "insertSorted (listOwnId l) ?x (contacts l)"
  show ?thesis
  proof (cases "contacts l")
    case Nil
    with False show ?thesis
      by (simp add: addContact_def advances_def closer_def closestDistance_def getClosestContactId_def evict_def K_def)
  next
    case (Cons y ys)
    have ne: "?zs \<noteq> []" using Cons by (auto split: if_splits)
    from evict_hd[OF ne] obtain e es where ev: "evict ?zs = e # es" "e = hd ?zs"
      by (cases "evict ?zs") auto
    from insertSorted_hd[of "listOwnId l" ?x y ys ?zs] Cons
    have "hd ?zs = y \<or> (hd ?zs = ?x \<and> distance (listOwnId l) (entryId ?x) < distance (listOwnId l) (entryId y))"
      by auto
    with False Cons ev show ?thesis
      by (auto simp: addContact_def advances_def closer_def closestDistance_def getClosestContactId_def)
  qed
qed

lemma advances_addContacts: "advances l (addContacts cs l)"
  unfolding addContacts_def
proof (induction cs arbitrary: l)
  case Nil
  show ?case by (simp add: advances_refl)
next
  case (Cons c cs)
  show ?case using advances_trans[OF advances_addContact Cons.IH] by simp
qed

lemma advances_setContacted: "advances l (setContacted i l)"
  by (cases "contacts l") (auto simp: advances_def setContacted_def getClosestContactId_def entryId_def)

lemma advances_setActive: "advances l (setActive i l)"
  by (cases "contacts l") (auto simp: advances_def setActive_def getClosestContactId_def entryId_def)

lemma advances_getClosestNodesTo:
  "advances (neighborList n) (neighborList (snd (getClosestNodesTo ops i caller n)))"
  by (simp add: getClosestNodesTo_def Let_def advances_addContact advances_refl)

lemma findMoreContactsFrom_advances:
  assumes "findMoreContactsFrom ops self c net = Inr net'"
  shows "length net' = length net \<and> advances (neighborList (net ! self)) (neighborList (net' ! self))"
proof -
  from assms have self: "self < length net"
    by (auto simp: findMoreContactsFrom_def split: if_splits)
  from assms self obtain h where h: "dhtNode c = Some h" "h < length net"
    by (auto simp: findMoreContactsFrom_def Let_def split: if_splits option.splits)
  define me1 where "me1 = (net ! self)\<lparr>neighborList :=
                       setActive (contact_id c) (setContacted (contact_id c) (neighborList (net ! self))),
                     numberOfOutgoingRpcCalls := numberOfOutgoingRpcCalls (net ! self) + 1\<rparr>"
  define net1 where "net1 = net[self := me1]"
  define r where "r = getClosestNodesTo ops (ownId me1) self (net1 ! h)"
  define net2 where "net2 = net1[h := snd r]"
  define me3 where "me3 = (net2 ! self)\<lparr>neighborList := addContacts (fst r) (neighborList (net2 ! self))\<rparr>"
  define me4 where "me4 = me3\<lparr>bucket := addReturnedContacts ops (fst r) (bucket me3)\<rparr>"
  have res: "net' = net2[self := me4]"
    using assms self h
    by (simp add: findMoreContactsFrom_def Let_def me1_def net1_def r_def net2_def me3_def me4_def
                  split_beta)
  have len: "length net' = length net" by (simp add: res net2_def net1_def)
  have a1: "advances (neighborList (net ! self)) (neighborList (net1 ! self))"
    using self advances_trans[OF advances_setContacted advances_setActive]
    by (simp add: net1_def me1_def)
  have a2: "advances (neighborList (net1 ! self)) (neighborList (net2 ! self))"
  proof (cases "h = self")
    case True
    then show ?thesis using self advances_getClosestNodesTo[of "net1 ! self" ops "ownId me1" self]
      by (simp add: net2_def r_def net1_def)
  next
    case False
    then show ?thesis using self by (simp add: net2_def advances_refl)
  qed
  have a3: "advances (neighborList (net2 ! self)) (neighborList (net' ! self))"
    using self by (simp add: res net2_def net1_def me4_def me3_def advances_addContacts)
  from len advances_trans[OF advances_trans[OF a1 a2] a3] show ?thesis by simp
qed

lemma findMoreContacts_advances:
  "findMoreContacts ops self cs net = Inr net' \<Longrightarrow>
     length net' = length net \<and> advances (neighborList (net ! self)) (neighborList (net' ! self))"
proof (induction cs arbitrary: net)
  case Nil
  then show ?case by (simp add: advances_refl)
next
  case (Cons c cs)
  from Cons.prems obtain net1 where s: "findMoreContactsFrom ops self c net = Inr net1"
      and r: "findMoreContacts ops self cs net1 = Inr net'"
    by (auto split: sum.splits)
  from findMoreContactsFrom_advances[OF s] Cons.IH[OF r] show ?case
    by (auto intro: advances_trans)
qed

lemma round_closer:
  assumes "findMoreContacts ops self cs net = Inr net'"
    and "closestContactId self net \<noteq> closestContactId self net'"
  shows "closer (neighborList (net' ! self)) (neighborList (net ! self))"
  using findMoreContacts_advances[OF assms(1)] assms(2)
  by (auto simp: advances_def closestContactId_def)

lemma wf_round: "wf (roundOrder self)"
  unfolding roundOrder_def using wf_closer by (rule wf_inv_image)

lemma round_closer':
  assumes "findMoreContacts ops self cs net = Inr net'"
    and "closestContactId self net \<noteq> closestContactId self net'"
  shows "(net', net) \<in> roundOrder self"
  using round_closer[OF assms] by (simp add: roundOrder_def)

lemma joinDhtInner_returns: "\<exists>r. joinDhtInner ops self u net = Some r"
proof (induction net arbitrary: u rule: wf_induct_rule[OF wf_round[of self]])
  case (1 net)
  show ?case
  proof (cases "findMoreContacts ops self u net")
    case (Inl e)
    then show ?thesis by (subst joinDhtInner.simps) simp
  next
    case (Inr net')
    show ?thesis
    proof (cases "K \<le> activeCount self net' \<or> closestContactId self net = closestContactId self net'")
      case True
      with Inr show ?thesis by (subst joinDhtInner.simps) simp
    next
      case False
      with round_closer'[OF Inr] have "(net', net) \<in> roundOrder self"
        by simp
      from 1(1)[of net' "uncontacted ALPHA self net'"] this
      obtain r where "joinDhtInner ops self (uncontacted ALPHA self net') net' = Some r" by auto
      with Inr False show ?thesis by (subst joinDhtInner.simps) simp
    qed
  qed
qed

lemma joinDhtOuter_returns: "\<exists>r. joinDhtOuter ops self net = Some r"
proof (induction net rule: wf_induct_rule[OF wf_round[of self]])
  case (1 net)
  show ?case
  proof (cases "findMoreContacts ops self (uncontacted ALPHA self net) net")
    case (Inl e)
    then show ?thesis by (subst joinDhtOuter.simps) simp
  next
    case (Inr net')
    show ?thesis
    proof (cases "closestContactId self net = closestContactId self net'")
      case True
      with Inr joinDhtInner_returns[of ops self "uncontacted K self net'" net'] show ?thesis
        by (subst joinDhtOuter.simps) simp
    next
      case False
      with round_closer'[OF Inr] have "(net', net) \<in> roundOrder self"
        by simp
      from 1(1)[of net'] this
      obtain r where "joinDhtOuter ops self net' = Some r" by auto
      with Inr False show ?thesis by (subst joinDhtOuter.simps) simp
    qed
  qed
qed

text \<open>
  C1. A call of \<open>joinDht\<close> returns: for every bucket implementation, every list of
  nodes, every caller and every entry point, the two nested loops end after finitely
  many probe rounds, with the nodes afterwards or with an error.
\<close>

theorem joinDht_terminates: "\<exists>r. joinDht ops self entryPoint net = Some r"
  by (simp add: joinDht_def joinDhtOuter_returns)

section \<open>The rounds of a completed join\<close>

lemma innerRounds_stop:
  "completeRound ops self r \<Longrightarrow> roundLimit r = w \<Longrightarrow> roundBefore r = s \<Longrightarrow> returnsAfter self r
     \<Longrightarrow> innerRounds ops self w s [r] (roundAfter r)"
  by (simp add: innerRounds_def)

lemma innerRounds_step:
  "completeRound ops self r \<Longrightarrow> roundLimit r = w \<Longrightarrow> roundBefore r = s \<Longrightarrow> \<not> returnsAfter self r
     \<Longrightarrow> innerRounds ops self ALPHA (roundAfter r) rs t
     \<Longrightarrow> innerRounds ops self w s (r # rs) t"
  unfolding innerRounds_def by (cases rs) auto

lemma outerRounds_escalate:
  "completeRound ops self r \<Longrightarrow> roundLimit r = ALPHA \<Longrightarrow> roundBefore r = s \<Longrightarrow> \<not> closestChanged self r
     \<Longrightarrow> innerRounds ops self K (roundAfter r) bs t
     \<Longrightarrow> outerRounds ops self s [r] bs t"
  by (simp add: outerRounds_def)

lemma outerRounds_step:
  "completeRound ops self r \<Longrightarrow> roundLimit r = ALPHA \<Longrightarrow> roundBefore r = s \<Longrightarrow> closestChanged self r
     \<Longrightarrow> outerRounds ops self (roundAfter r) as bs t
     \<Longrightarrow> outerRounds ops self s (r # as) bs t"
  unfolding outerRounds_def by (cases as) auto

lemma joinDhtInnerRounds_run:
  "\<exists>rs res. joinDhtInnerRounds ops self w net = Some (rs, res) \<and>
             joinDhtInner ops self (uncontacted w self net) net = Some res \<and>
             (\<forall>t. res = Inr t \<longrightarrow> innerRounds ops self w net rs t)"
proof (induction net arbitrary: w rule: wf_induct_rule[OF wf_round[of self]])
  case (1 net)
  let ?u = "uncontacted w self net"
  show ?case
  proof (cases "findMoreContacts ops self ?u net")
    case (Inl e)
    then show ?thesis
      by (subst joinDhtInnerRounds.simps, subst joinDhtInner.simps) simp
  next
    case (Inr net')
    define r where "r = \<lparr>roundLimit = w, probed = ?u, roundBefore = net, roundAfter = net'\<rparr>"
    have r: "completeRound ops self r" "roundLimit r = w" "roundBefore r = net" "roundAfter r = net'"
      using Inr by (simp_all add: r_def completeRound_def)
    have ret: "returnsAfter self r \<longleftrightarrow>
        K \<le> activeCount self net' \<or> closestContactId self net = closestContactId self net'"
      by (simp add: returnsAfter_def closestChanged_def r_def)
    show ?thesis
    proof (cases "returnsAfter self r")
      case True
      from innerRounds_stop[OF r(1,2,3) True] have "innerRounds ops self w net [r] net'"
        by (simp add: r)
      moreover have "joinDhtInnerRounds ops self w net = Some ([r], Inr net')"
        using Inr True ret by (subst joinDhtInnerRounds.simps) (simp add: r_def)
      moreover have "joinDhtInner ops self ?u net = Some (Inr net')"
        using Inr True ret by (subst joinDhtInner.simps) simp
      ultimately show ?thesis by simp
    next
      case False
      with ret have "closestContactId self net \<noteq> closestContactId self net'" by simp
      from round_closer'[OF Inr this] have "(net', net) \<in> roundOrder self" .
      from 1(1)[OF this, of ALPHA] obtain rs res where
        ih: "joinDhtInnerRounds ops self ALPHA net' = Some (rs, res)"
            "joinDhtInner ops self (uncontacted ALPHA self net') net' = Some res"
            "\<forall>t. res = Inr t \<longrightarrow> innerRounds ops self ALPHA net' rs t"
        by blast
      have "joinDhtInnerRounds ops self w net = Some (r # rs, res)"
        using Inr False ret ih(1) by (subst joinDhtInnerRounds.simps) (simp add: r_def)
      moreover have "joinDhtInner ops self ?u net = Some res"
        using Inr False ret ih(2) by (subst joinDhtInner.simps) simp
      moreover have "\<forall>t. res = Inr t \<longrightarrow> innerRounds ops self w net (r # rs) t"
        using innerRounds_step[OF r(1,2,3) False] ih(3) by (simp add: r)
      ultimately show ?thesis by simp
    qed
  qed
qed

lemma joinDhtOuterRounds_run:
  "\<exists>rs res. joinDhtOuterRounds ops self net = Some (rs, res) \<and>
             joinDhtOuter ops self net = Some res \<and>
             (\<forall>t. res = Inr t \<longrightarrow> (\<exists>as bs. rs = as @ bs \<and> outerRounds ops self net as bs t))"
proof (induction net rule: wf_induct_rule[OF wf_round[of self]])
  case (1 net)
  let ?u = "uncontacted ALPHA self net"
  show ?case
  proof (cases "findMoreContacts ops self ?u net")
    case (Inl e)
    then show ?thesis
      by (subst joinDhtOuterRounds.simps, subst joinDhtOuter.simps) simp
  next
    case (Inr net')
    define r where "r = \<lparr>roundLimit = ALPHA, probed = ?u, roundBefore = net, roundAfter = net'\<rparr>"
    have r: "completeRound ops self r" "roundLimit r = ALPHA" "roundBefore r = net" "roundAfter r = net'"
      using Inr by (simp_all add: r_def completeRound_def)
    have ch: "closestChanged self r \<longleftrightarrow> closestContactId self net \<noteq> closestContactId self net'"
      by (simp add: closestChanged_def r_def)
    show ?thesis
    proof (cases "closestChanged self r")
      case False
      from joinDhtInnerRounds_run[of ops self K net'] obtain rs res where
        ih: "joinDhtInnerRounds ops self K net' = Some (rs, res)"
            "joinDhtInner ops self (uncontacted K self net') net' = Some res"
            "\<forall>t. res = Inr t \<longrightarrow> innerRounds ops self K net' rs t"
        by blast
      have "joinDhtOuterRounds ops self net = Some (r # rs, res)"
        using Inr False ch ih(1) by (subst joinDhtOuterRounds.simps) (simp add: r_def)
      moreover have "joinDhtOuter ops self net = Some res"
        using Inr False ch ih(2) by (subst joinDhtOuter.simps) simp
      moreover have "\<forall>t. res = Inr t \<longrightarrow> (\<exists>as bs. r # rs = as @ bs \<and> outerRounds ops self net as bs t)"
      proof (intro allI impI)
        fix t assume "res = Inr t"
        with ih(3) have "innerRounds ops self K (roundAfter r) rs t" by (simp add: r)
        from outerRounds_escalate[OF r(1,2,3) False this]
        have "r # rs = [r] @ rs \<and> outerRounds ops self net [r] rs t" by simp
        then show "\<exists>as bs. r # rs = as @ bs \<and> outerRounds ops self net as bs t" by blast
      qed
      ultimately show ?thesis by simp
    next
      case True
      with ch have "closestContactId self net \<noteq> closestContactId self net'" by simp
      from round_closer'[OF Inr this] have "(net', net) \<in> roundOrder self" .
      from 1(1)[OF this] obtain rs res where
        ih: "joinDhtOuterRounds ops self net' = Some (rs, res)"
            "joinDhtOuter ops self net' = Some res"
            "\<forall>t. res = Inr t \<longrightarrow> (\<exists>as bs. rs = as @ bs \<and> outerRounds ops self net' as bs t)"
        by blast
      have "joinDhtOuterRounds ops self net = Some (r # rs, res)"
        using Inr True ch ih(1) by (subst joinDhtOuterRounds.simps) (simp add: r_def)
      moreover have "joinDhtOuter ops self net = Some res"
        using Inr True ch ih(2) by (subst joinDhtOuter.simps) simp
      moreover have "\<forall>t. res = Inr t \<longrightarrow> (\<exists>as bs. r # rs = as @ bs \<and> outerRounds ops self net as bs t)"
      proof (intro allI impI)
        fix t assume "res = Inr t"
        with ih(3) obtain as bs where ab: "rs = as @ bs" "outerRounds ops self (roundAfter r) as bs t"
          by (auto simp: r)
        from outerRounds_step[OF r(1,2,3) True ab(2)] ab(1)
        have "r # rs = (r # as) @ bs \<and> outerRounds ops self net (r # as) bs t" by simp
        then show "\<exists>as bs. r # rs = as @ bs \<and> outerRounds ops self net as bs t" by blast
      qed
      ultimately show ?thesis by simp
    qed
  qed
qed

lemma joinDhtRounds_run:
  assumes "joinDht ops self entryPoint net = Some (Inr t)"
    and "ownId (net ! entryPoint) \<noteq> ownId (net ! self)"
  shows "\<exists>as bs. joinDhtRounds ops self entryPoint net = Some (as @ bs, Inr t) \<and>
                 outerRounds ops self (joinDhtInit ops self entryPoint net) as bs t"
proof -
  from assms have valid: "self < length net \<and> entryPoint < length net"
    by (auto simp: joinDht_def split: if_splits)
  let ?s = "joinDhtInit ops self entryPoint net"
  from assms valid have o: "joinDhtOuter ops self ?s = Some (Inr t)"
    by (simp add: joinDht_def getContact_def)
  from joinDhtOuterRounds_run[of ops self ?s] o obtain rs where
    "joinDhtOuterRounds ops self ?s = Some (rs, Inr t)"
    "\<exists>as bs. rs = as @ bs \<and> outerRounds ops self ?s as bs t"
    by auto
  with assms(2) valid show ?thesis
    by (auto simp: joinDhtRounds_def getContact_def)
qed

section \<open>What the rounds of a join do\<close>

lemma advances_le: "advances l l' \<Longrightarrow> closestDistance l' \<le> closestDistance l"
  unfolding advances_def closer_def
  using closestDistance_cong[of l' l] by auto

lemma chained_append: "chained s as m \<Longrightarrow> chained m bs t \<Longrightarrow> chained s (as @ bs) t"
  by (induction as arbitrary: s) auto

lemma completeRound_le:
  "completeRound ops self r \<Longrightarrow>
     closestDistance (neighborList (roundAfter r ! self))
       \<le> closestDistance (neighborList (roundBefore r ! self))"
proof -
  assume "completeRound ops self r"
  then have "findMoreContacts ops self (probed r) (roundBefore r) = Inr (roundAfter r)"
    unfolding completeRound_def by (rule conjunct2)
  from findMoreContacts_advances[OF this] show ?thesis
    by (blast intro: advances_le)
qed

text \<open>
  C2. In a completed call of \<open>joinDht\<close> whose entry point has another id than the
  node, the probe rounds follow one another from the nodes left by the first statements
  of \<open>joinDht\<close> to the nodes at its return, and after each round the distance from the
  node's own id to the closest contact id of its neighbor list is less than or equal to
  what it was before the round.
\<close>

theorem joinDht_closest_never_farther:
  assumes "joinDht ops self entryPoint net = Some (Inr t)"
    and "ownId (net ! entryPoint) \<noteq> ownId (net ! self)"
  shows "\<exists>rs. joinDhtRounds ops self entryPoint net = Some (rs, Inr t) \<and>
              chained (joinDhtInit ops self entryPoint net) rs t \<and>
              (\<forall>r\<in>set rs. closestDistance (neighborList (roundAfter r ! self))
                             \<le> closestDistance (neighborList (roundBefore r ! self)))"
proof -
  from joinDhtRounds_run[OF assms] obtain as bs where
    run: "joinDhtRounds ops self entryPoint net = Some (as @ bs, Inr t)"
    and out: "outerRounds ops self (joinDhtInit ops self entryPoint net) as bs t"
    by blast
  from out have c: "\<forall>r\<in>set (as @ bs). completeRound ops self r"
    by (auto simp: outerRounds_def innerRounds_def)
  from out have "chained (joinDhtInit ops self entryPoint net) (as @ bs) t"
    by (auto simp: outerRounds_def innerRounds_def intro: chained_append)
  with run c show ?thesis
    using completeRound_le[of ops self] by blast
qed

theorem joinDht_closest_never_farther_witness:
  "joinDht kbucket 0 1 exampleNet = Some (Inr exampleJoined) \<and>
   ownId (exampleNet ! 1) \<noteq> ownId (exampleNet ! 0) \<and>
   map_option (\<lambda>(rs, res). map (\<lambda>r. closestContactId 0 (roundAfter r)) rs)
     (joinDhtRounds kbucket 0 1 exampleNet) = Some [Some [8], Some [8], Some [1], Some [1]] \<and>
   (\<exists>rs. joinDhtRounds kbucket 0 1 exampleNet = Some (rs, Inr exampleJoined) \<and>
         chained (joinDhtInit kbucket 0 1 exampleNet) rs exampleJoined \<and>
         (\<forall>r\<in>set rs. closestDistance (neighborList (roundAfter r ! 0))
                        \<le> closestDistance (neighborList (roundBefore r ! 0))))"
proof -
  have h: "joinDht kbucket 0 1 exampleNet = Some (Inr exampleJoined)"
    unfolding exampleJoined_def by code_simp
  have d: "ownId (exampleNet ! 1) \<noteq> ownId (exampleNet ! 0)"
    by code_simp
  have e: "map_option (\<lambda>(rs, res). map (\<lambda>r. closestContactId 0 (roundAfter r)) rs)
             (joinDhtRounds kbucket 0 1 exampleNet) = Some [Some [8], Some [8], Some [1], Some [1]]"
    by code_simp
  show ?thesis
    by (rule conjI[OF h conjI[OF d conjI[OF e joinDht_closest_never_farther[OF h d]]]])
qed

text \<open>
  C3, amended. In a completed call of \<open>joinDht\<close> whose entry point has another id
  than the node, the rounds are \<open>as @ k # bs\<close>. The rounds \<open>as\<close> probe up to
  \<open>ALPHA\<close> uncontacted contacts and go on while the closest contact id changes; the
  first round that leaves it unchanged, the last of \<open>as\<close>, is followed by the one
  round \<open>k\<close> that probes up to \<open>K\<close> uncontacted contacts. The rounds \<open>bs\<close> after
  \<open>k\<close> probe up to \<open>ALPHA\<close> contacts again. From \<open>k\<close> on, \<open>joinDht\<close> returns
  after the first round that leaves the closest contact id unchanged or leaves at least
  \<open>K\<close> active contacts.
\<close>

theorem joinDht_escalates:
  assumes "joinDht ops self entryPoint net = Some (Inr t)"
    and "ownId (net ! entryPoint) \<noteq> ownId (net ! self)"
  shows "\<exists>as k bs.
           joinDhtRounds ops self entryPoint net = Some (as @ k # bs, Inr t) \<and>
           chained (joinDhtInit ops self entryPoint net) (as @ k # bs) t \<and>
           (\<forall>r\<in>set (as @ k # bs).
              probed r = uncontacted (roundLimit r) self (roundBefore r) \<and>
              findMoreContacts ops self (probed r) (roundBefore r) = Inr (roundAfter r)) \<and>
           as \<noteq> [] \<and> (\<forall>r\<in>set as. roundLimit r = ALPHA) \<and>
           (\<forall>r\<in>set (butlast as). closestChanged self r) \<and>
           \<not> closestChanged self (last as) \<and>
           roundLimit k = K \<and> (\<forall>r\<in>set bs. roundLimit r = ALPHA) \<and>
           (\<forall>r\<in>set (butlast (k # bs)).
              closestChanged self r \<and> activeCount self (roundAfter r) < K) \<and>
           (\<not> closestChanged self (last (k # bs)) \<or>
            K \<le> activeCount self (roundAfter (last (k # bs))))"
proof -
  from joinDhtRounds_run[OF assms] obtain as cs where
    run: "joinDhtRounds ops self entryPoint net = Some (as @ cs, Inr t)"
    and out: "outerRounds ops self (joinDhtInit ops self entryPoint net) as cs t"
    by blast
  from out have inn: "innerRounds ops self K (roundAfter (last as)) cs t"
    by (simp add: outerRounds_def)
  then obtain k bs where cs: "cs = k # bs"
    by (cases cs) (auto simp: innerRounds_def)
  have 1: "chained (joinDhtInit ops self entryPoint net) (as @ k # bs) t"
    using out unfolding cs outerRounds_def innerRounds_def by (auto intro: chained_append)
  have 2: "\<forall>r\<in>set (as @ k # bs).
              probed r = uncontacted (roundLimit r) self (roundBefore r) \<and>
              findMoreContacts ops self (probed r) (roundBefore r) = Inr (roundAfter r)"
    using out unfolding cs outerRounds_def innerRounds_def completeRound_def by auto
  have 3: "as \<noteq> []" "\<forall>r\<in>set as. roundLimit r = ALPHA"
    "\<forall>r\<in>set (butlast as). closestChanged self r" "\<not> closestChanged self (last as)"
    using out unfolding outerRounds_def by auto
  have 4: "roundLimit k = K" "\<forall>r\<in>set bs. roundLimit r = ALPHA"
    using inn unfolding cs innerRounds_def by auto
  have 5: "\<forall>r\<in>set (butlast (k # bs)). closestChanged self r \<and> activeCount self (roundAfter r) < K"
    using inn unfolding cs innerRounds_def returnsAfter_def by (auto simp: not_le)
  have 6: "\<not> closestChanged self (last (k # bs)) \<or> K \<le> activeCount self (roundAfter (last (k # bs)))"
    using inn unfolding cs innerRounds_def returnsAfter_def by auto
  from run cs 1 2 3 4 5 6 show ?thesis by blast
qed


theorem joinDht_escalates_witness:
  "joinDht kbucket 0 1 exampleNet = Some (Inr exampleJoined) \<and>
   ownId (exampleNet ! 1) \<noteq> ownId (exampleNet ! 0) \<and>
   map_option (\<lambda>(rs, res). map roundLimit rs) (joinDhtRounds kbucket 0 1 exampleNet)
     = Some [3, 3, 8, 3] \<and>
   (\<exists>as k bs.
      joinDhtRounds kbucket 0 1 exampleNet = Some (as @ k # bs, Inr exampleJoined) \<and>
      chained (joinDhtInit kbucket 0 1 exampleNet) (as @ k # bs) exampleJoined \<and>
      (\<forall>r\<in>set (as @ k # bs).
         probed r = uncontacted (roundLimit r) 0 (roundBefore r) \<and>
         findMoreContacts kbucket 0 (probed r) (roundBefore r) = Inr (roundAfter r)) \<and>
      as \<noteq> [] \<and> (\<forall>r\<in>set as. roundLimit r = ALPHA) \<and>
      (\<forall>r\<in>set (butlast as). closestChanged 0 r) \<and>
      \<not> closestChanged 0 (last as) \<and>
      roundLimit k = K \<and> (\<forall>r\<in>set bs. roundLimit r = ALPHA) \<and>
      (\<forall>r\<in>set (butlast (k # bs)).
         closestChanged 0 r \<and> activeCount 0 (roundAfter r) < K) \<and>
      (\<not> closestChanged 0 (last (k # bs)) \<or>
       K \<le> activeCount 0 (roundAfter (last (k # bs)))))"
proof -
  have h: "joinDht kbucket 0 1 exampleNet = Some (Inr exampleJoined)"
    unfolding exampleJoined_def by code_simp
  have d: "ownId (exampleNet ! 1) \<noteq> ownId (exampleNet ! 0)"
    by code_simp
  have e: "map_option (\<lambda>(rs, res). map roundLimit rs) (joinDhtRounds kbucket 0 1 exampleNet)
             = Some [3, 3, 8, 3]"
    by code_simp
  show ?thesis
    by (rule conjI[OF h conjI[OF d conjI[OF e joinDht_escalates[OF h d]]]])
qed

text \<open>
  In the network of eleven nodes the join of node 0 runs four rounds. The third probes
  with the limit \<open>K\<close> and brings five closer contacts into the list; the fourth
  probes with the limit \<open>ALPHA\<close> again, so only the contacts with the ids 1, 2 and 3.
  It leaves the closest contact id unchanged and six active contacts, and \<open>joinDht\<close>
  returns after it, with eight outgoing calls made and the contacts with the ids 4 and 5
  never probed. A join that keeps the limit \<open>K\<close> once the search is widened probes
  them too and makes ten outgoing calls.
\<close>

theorem joinDht_returns_after_narrow_round:
  "roundSummaries 0 (joinDhtRounds kbucket 0 1 separatingNet)
     = Some [(3, True, 1), (3, False, 4), (8, True, 3), (3, False, 6)] \<and>
   probedIds (joinDhtRounds kbucket 0 1 separatingNet)
     = Some [[[16]], [[8], [9], [10]], [[11]], [[1], [2], [3]]] \<and>
   joinDht kbucket 0 1 separatingNet = map_option snd (joinDhtRounds kbucket 0 1 separatingNet) \<and>
   uncontactedIds 0 (joinDht kbucket 0 1 separatingNet) = Some [[4], [5]] \<and>
   outgoingCalls 0 (joinDht kbucket 0 1 separatingNet) = Some 8 \<and>
   uncontactedIds 0 (joinDhtWidened kbucket 0 1 separatingNet) = Some [] \<and>
   outgoingCalls 0 (joinDhtWidened kbucket 0 1 separatingNet) = Some 10 \<and>
   ALPHA = 3 \<and> K = 8"
proof -
  have a: "roundSummaries 0 (joinDhtRounds kbucket 0 1 separatingNet)
     = Some [(3, True, 1), (3, False, 4), (8, True, 3), (3, False, 6)]"
    by code_simp
  have b: "probedIds (joinDhtRounds kbucket 0 1 separatingNet)
     = Some [[[16]], [[8], [9], [10]], [[11]], [[1], [2], [3]]]"
    by code_simp
  have c: "joinDht kbucket 0 1 separatingNet
     = map_option snd (joinDhtRounds kbucket 0 1 separatingNet)"
    by code_simp
  have d: "uncontactedIds 0 (joinDht kbucket 0 1 separatingNet) = Some [[4], [5]]"
    by code_simp
  have e: "outgoingCalls 0 (joinDht kbucket 0 1 separatingNet) = Some 8"
    by code_simp
  have f: "uncontactedIds 0 (joinDhtWidened kbucket 0 1 separatingNet) = Some []"
    by code_simp
  have g: "outgoingCalls 0 (joinDhtWidened kbucket 0 1 separatingNet) = Some 10"
    by code_simp
  show ?thesis
    by (rule conjI[OF a conjI[OF b conjI[OF c conjI[OF d conjI[OF e conjI[OF f
          conjI[OF g conjI[OF ALPHA_def K_def]]]]]]]])
qed

section \<open>Properties of the k-bucket implementation\<close>

lemma closestLoop_all:
  "set (closestLoop i None nodes bitIndex acc) = set acc \<union> (\<Union>t\<in>set nodes. set (nodeContacts t)) \<and>
   length (closestLoop i None nodes bitIndex acc) = length acc + sum_list (map (length \<circ> nodeContacts) nodes)"
  by (induction i "None :: nat option" nodes bitIndex acc rule: closestLoop.induct)
     (auto simp: reached_def)

lemma closestLoop_subset:
  "set (closestLoop i n nodes bitIndex acc) \<subseteq> set acc \<union> (\<Union>t\<in>set nodes. set (nodeContacts t))"
  by (induction i n nodes bitIndex acc rule: closestLoop.induct) (auto split: if_splits)

lemma closest_subset: "set (closest i n b) \<subseteq> set (nodeContacts (root b))"
proof -
  have "set (closest i n b) \<subseteq> set (closestLoop i n [root b] 0 [])"
    by (auto simp: closest_def Let_def split: option.splits dest: in_set_takeD)
  with closestLoop_subset[of i n "[root b]" 0 "[]"] show ?thesis by auto
qed

lemma getNode_None:
  "routed bitIndex t \<Longrightarrow> getNode bitIndex i t = None \<Longrightarrow> \<forall>c\<in>set (nodeContacts t). contact_id c \<noteq> i"
proof (induction t arbitrary: bitIndex)
  case (Leaf cs ds)
  then show ?case by (auto simp: find_None_iff)
next
  case (Inner l r)
  then show ?case by (auto split: if_splits)
qed

lemma nodeContacts_split:
  "set (nodeContacts (split own bitIndex cs)) = set cs"
  by (auto simp: split_def)

lemma routed_split: "routed bitIndex (split own bitIndex cs)"
  by (simp add: split_def)

lemma nodeContacts_addNode:
  "set (nodeContacts (addNode splits k own bitIndex c t)) \<subseteq> insert c (set (nodeContacts t))"
proof (induction splits k own bitIndex c t rule: addNode.induct)
  case (1 splits k own bitIndex c l r)
  then show ?case by auto
next
  case (2 splits k own bitIndex c cs ds)
  show ?case
  proof (cases splits)
    case 0
    then show ?thesis by (auto simp: update_def)
  next
    case (Suc m)
    with 2 show ?thesis by (auto simp: update_def nodeContacts_split)
  qed
qed

lemma routed_addNode:
  "routed bitIndex t \<Longrightarrow> routed bitIndex (addNode splits k own bitIndex c t)"
proof (induction splits k own bitIndex c t rule: addNode.induct)
  case (1 splits k own bitIndex c l r)
  show ?case
  proof (cases "determineRight (contact_id c) bitIndex")
    case True
    with 1 nodeContacts_addNode[of splits k own "bitIndex + 1" c r] show ?thesis by auto
  next
    case False
    with 1 nodeContacts_addNode[of splits k own "bitIndex + 1" c l] show ?thesis by auto
  qed
next
  case (2 splits k own bitIndex c cs ds)
  show ?case
  proof (cases splits)
    case 0
    then show ?thesis by simp
  next
    case (Suc m)
    with 2 routed_split show ?thesis by auto
  qed
qed

lemma routed_add: "routed 0 (root b) \<Longrightarrow> routed 0 (root (add c b))"
  by (simp add: add_def routed_addNode)

lemma routed_new: "routed 0 (root (newKBucket own k))"
  by (simp add: newKBucket_def)

text \<open>
  Ids of eight bytes: the exact distance \<open>2 ^ 56 + 2\<close> and the exact distance
  \<open>2 ^ 56 + 1\<close> from the id of zeros are the same \<open>KBucket.distance\<close>, so
  \<open>closest\<close> returns the two contacts in the order in which they were added.
\<close>

lemma bitLength_0: "bitLength 0 = 0"
  by (subst bitLength.simps) simp

lemma bitLength_1: "bitLength 1 = 1"
  by (subst bitLength.simps) (simp add: bitLength_0)

lemma bitLength_numeral: "bitLength (numeral k) = Suc (bitLength (numeral k div 2))"
  by (subst bitLength.simps) simp

lemma bitLength_Suc0: "bitLength (Suc 0) = 1"
  using bitLength_1 by simp

lemma timesPlus_enat:
  "timesPlus (enat m) x = (if 1017 \<le> bitLength m then \<infinity> else enat (roundToDouble (m * 256 + x)))"
  by (simp add: timesPlus_def)

lemma kbucketDistance_far2: "kbucketDistance [1, 0, 0, 0, 0, 0, 0, 2] [0, 0, 0, 0, 0, 0, 0, 0] = enat (2 ^ 56)"
  by (simp add: kbucketDistance_def zero_enat_def timesPlus_enat roundToDouble_def
        bitLength_0 bitLength_1 bitLength_Suc0 bitLength_numeral Let_def)

lemma kbucketDistance_far1: "kbucketDistance [1, 0, 0, 0, 0, 0, 0, 1] [0, 0, 0, 0, 0, 0, 0, 0] = enat (2 ^ 56)"
  by (simp add: kbucketDistance_def zero_enat_def timesPlus_enat roundToDouble_def
        bitLength_0 bitLength_1 bitLength_Suc0 bitLength_numeral Let_def)

lemma kbucketDistance_tie: "kbucketDistance [1, 0, 0, 0, 0, 0, 0, 24] [0, 0, 0, 0, 0, 0, 0, 0] = enat (2 ^ 56 + 32)"
  by (simp add: kbucketDistance_def zero_enat_def timesPlus_enat roundToDouble_def
        bitLength_0 bitLength_1 bitLength_Suc0 bitLength_numeral Let_def)

lemma distance_far2: "distance [1, 0, 0, 0, 0, 0, 0, 2] [0, 0, 0, 0, 0, 0, 0, 0] = 2 ^ 56 + 2"
  by (simp add: distance_def)

lemma closest_keeps_order_of_equals: "map contact_id
     (closest [0, 0, 0, 0, 0, 0, 0, 0] None
        (add \<lparr>contact_id = [1, 0, 0, 0, 0, 0, 0, 1], dhtNode = Some 2\<rparr>
           (add \<lparr>contact_id = [1, 0, 0, 0, 0, 0, 0, 2], dhtNode = Some 1\<rparr>
              (newKBucket [0, 0, 0, 0, 0, 0, 0, 0] K))))
     = [[1, 0, 0, 0, 0, 0, 0, 2], [1, 0, 0, 0, 0, 0, 0, 1]]"
  by (simp add: closest_def add_def newKBucket_def K_def reached_def kbucketDistance_far2 kbucketDistance_far1)

section \<open>The handler \<open>getClosestNodesTo\<close> and the self-join\<close>

text \<open>
  C4, amended. A call of \<open>getClosestNodesTo\<close> adds exactly one to the counter of
  incoming calls and returns \<open>bucket.closest(id)\<close>, called without a limit. For the
  k-bucket the returned list consists of all the contacts the bucket holds.
\<close>

theorem getClosestNodesTo_returns_all:
  "numberOfIncomingRpcCalls (snd (getClosestNodesTo ops i caller n))
     = numberOfIncomingRpcCalls n + 1 \<and>
   fst (getClosestNodesTo ops i caller n) = kb_closest ops i None (bucket n) \<and>
   set (fst (getClosestNodesTo kbucket i caller m)) = set (nodeContacts (root (bucket m))) \<and>
   length (fst (getClosestNodesTo kbucket i caller m)) = length (nodeContacts (root (bucket m)))"
proof -
  have a: "fst (getClosestNodesTo ops' i caller n') = kb_closest ops' i None (bucket n')"
    for ops' :: "'c KBucketOps" and n' :: "'c DhtNode"
    by (simp add: getClosestNodesTo_def Let_def)
  have b: "numberOfIncomingRpcCalls (snd (getClosestNodesTo ops i caller n))
     = numberOfIncomingRpcCalls n + 1"
    by (simp add: getClosestNodesTo_def Let_def)
  have c: "kb_closest kbucket i None (bucket m) = closest i None (bucket m)"
    by (simp add: kbucket_def)
  have d: "closest i None (bucket m)
      = sort_key (\<lambda>c. kbucketDistance (contact_id c) i) (closestLoop i None [root (bucket m)] 0 [])"
    by (simp add: closest_def)
  from closestLoop_all[of i "[root (bucket m)]" 0 "[]"]
  have e: "set (closest i None (bucket m)) = set (nodeContacts (root (bucket m)))"
    "length (closest i None (bucket m)) = length (nodeContacts (root (bucket m)))"
    unfolding d by simp_all
  from a[of ops n] b a[of kbucket m] c e
  show ?thesis by simp
qed

theorem getClosestNodesTo_more_than_K:
  "\<not> length (fst (getClosestNodesTo kbucket [10] 10 answeredNine)) \<le> K"
  unfolding answeredNine_def by code_simp

text \<open>
  C5, amended. A call of \<open>getClosestNodesTo\<close> looks up the id it was given, not the
  caller. If the bucket holds no contact under that id, a contact with that id and the
  caller as its node is given to \<open>add\<close> of the bucket and to \<open>addContact\<close> of the
  neighbor list; if it holds one, the bucket and the neighbor list stay as they are.
\<close>

theorem getClosestNodesTo_learns_id:
  "(kb_get ops i (bucket n) = None \<longrightarrow>
      bucket (snd (getClosestNodesTo ops i caller n))
        = kb_add ops \<lparr>contact_id = i, dhtNode = Some caller\<rparr> (bucket n) \<and>
      neighborList (snd (getClosestNodesTo ops i caller n))
        = addContact \<lparr>contact_id = i, dhtNode = Some caller\<rparr> (neighborList n)) \<and>
   (kb_get ops i (bucket n) \<noteq> None \<longrightarrow>
      bucket (snd (getClosestNodesTo ops i caller n)) = bucket n \<and>
      neighborList (snd (getClosestNodesTo ops i caller n)) = neighborList n)"
  by (simp add: getClosestNodesTo_def Let_def)

theorem getClosestNodesTo_learns_id_witness:
  "kb_get kbucket [1] (bucket (pairNet ! 0)) = None \<and>
   kb_get kbucket [1] (bucket answeredOne) \<noteq> None \<and>
   (bucket (snd (getClosestNodesTo kbucket [1] 1 (pairNet ! 0)))
      = kb_add kbucket \<lparr>contact_id = [1], dhtNode = Some 1\<rparr> (bucket (pairNet ! 0)) \<and>
    neighborList (snd (getClosestNodesTo kbucket [1] 1 (pairNet ! 0)))
      = addContact \<lparr>contact_id = [1], dhtNode = Some 1\<rparr> (neighborList (pairNet ! 0))) \<and>
   (bucket (snd (getClosestNodesTo kbucket [1] 1 answeredOne)) = bucket answeredOne \<and>
    neighborList (snd (getClosestNodesTo kbucket [1] 1 answeredOne)) = neighborList answeredOne)"
proof -
  have a: "kb_get kbucket [1] (bucket (pairNet ! 0)) = None" by code_simp
  have b: "kb_get kbucket [1] (bucket answeredOne) \<noteq> None"
    unfolding answeredOne_def by code_simp
  note t = getClosestNodesTo_learns_id[of kbucket "[1]" "pairNet ! 0" 1, THEN conjunct1, THEN mp, OF a]
  note u = getClosestNodesTo_learns_id[of kbucket "[1]" answeredOne 1, THEN conjunct2, THEN mp, OF b]
  show ?thesis by (rule conjI[OF a conjI[OF b conjI[OF t u]]])
qed

theorem getClosestNodesTo_known_caller_changes:
  "ownId (pairNet ! 1) = [1] \<and>
   answeredOne = snd (getClosestNodesTo kbucket (ownId (pairNet ! 1)) 1 (pairNet ! 0)) \<and>
   kb_get kbucket [1] (bucket answeredOne) = Some \<lparr>contact_id = [1], dhtNode = Some 1\<rparr> \<and>
   bucket (snd (getClosestNodesTo kbucket [2] 1 answeredOne)) \<noteq> bucket answeredOne \<and>
   neighborList (snd (getClosestNodesTo kbucket [2] 1 answeredOne)) \<noteq> neighborList answeredOne \<and>
   kb_get kbucket [136] (bucket answeredEightFar) = None \<and>
   kb_get kbucket [136] (bucket (snd (getClosestNodesTo kbucket [136] 9 answeredEightFar))) = None \<and>
   neighborList (snd (getClosestNodesTo kbucket [136] 9 answeredEightFar))
     = neighborList answeredEightFar"
  unfolding answeredOne_def answeredEightFar_def by code_simp

text \<open>
  C10. When the bucket holds no contact under the id given to \<open>getClosestNodesTo\<close>,
  the returned list is \<open>closest\<close> of the bucket as it was before the call, and the
  contact recorded in the bucket and the neighbor list has the id that was given, with
  the caller as its node. With the k-bucket, no contact of the returned list has that
  id.
\<close>

theorem getClosestNodesTo_unknown_id:
  "(kb_get ops i (bucket n) = None \<longrightarrow>
      fst (getClosestNodesTo ops i caller n) = kb_closest ops i None (bucket n) \<and>
      bucket (snd (getClosestNodesTo ops i caller n))
        = kb_add ops \<lparr>contact_id = i, dhtNode = Some caller\<rparr> (bucket n) \<and>
      neighborList (snd (getClosestNodesTo ops i caller n))
        = addContact \<lparr>contact_id = i, dhtNode = Some caller\<rparr> (neighborList n)) \<and>
   (kb_get kbucket i (bucket m) = None \<and> routed 0 (root (bucket m)) \<longrightarrow>
      (\<forall>c\<in>set (fst (getClosestNodesTo kbucket i caller m)). contact_id c \<noteq> i) \<and>
      routed 0 (root (bucket (snd (getClosestNodesTo kbucket i caller m)))))"
proof -
  have a: "kb_get ops i (bucket n) = None \<longrightarrow>
      fst (getClosestNodesTo ops i caller n) = kb_closest ops i None (bucket n) \<and>
      bucket (snd (getClosestNodesTo ops i caller n))
        = kb_add ops \<lparr>contact_id = i, dhtNode = Some caller\<rparr> (bucket n) \<and>
      neighborList (snd (getClosestNodesTo ops i caller n))
        = addContact \<lparr>contact_id = i, dhtNode = Some caller\<rparr> (neighborList n)"
    by (simp add: getClosestNodesTo_def Let_def)
  have b: "kb_get kbucket i (bucket m) = None \<and> routed 0 (root (bucket m)) \<longrightarrow>
      (\<forall>c\<in>set (fst (getClosestNodesTo kbucket i caller m)). contact_id c \<noteq> i) \<and>
      routed 0 (root (bucket (snd (getClosestNodesTo kbucket i caller m))))"
  proof (intro impI, elim conjE)
    assume g: "kb_get kbucket i (bucket m) = None" and r: "routed 0 (root (bucket m))"
    from g have "getNode 0 i (root (bucket m)) = None"
      by (simp add: kbucket_def get_def)
    from getNode_None[OF r this] closest_subset[of i None "bucket m"]
    have 1: "\<forall>c\<in>set (fst (getClosestNodesTo kbucket i caller m)). contact_id c \<noteq> i"
      by (auto simp: getClosestNodesTo_def Let_def kbucket_def)
    have 2: "routed 0 (root (bucket (snd (getClosestNodesTo kbucket i caller m))))"
      using r routed_add[OF r] by (simp add: getClosestNodesTo_def Let_def kbucket_def)
    from 1 2 show "(\<forall>c\<in>set (fst (getClosestNodesTo kbucket i caller m)). contact_id c \<noteq> i) \<and>
      routed 0 (root (bucket (snd (getClosestNodesTo kbucket i caller m))))" by simp
  qed
  from a b show ?thesis by (rule conjI)
qed

theorem getClosestNodesTo_unknown_id_witness:
  "kb_get kbucket [2] (bucket answeredOne) = None \<and> routed 0 (root (bucket answeredOne)) \<and>
   fst (getClosestNodesTo kbucket [2] 1 answeredOne) = [\<lparr>contact_id = [1], dhtNode = Some 1\<rparr>] \<and>
   fst (getClosestNodesTo kbucket [2] 1 answeredOne) = kb_closest kbucket [2] None (bucket answeredOne) \<and>
   bucket (snd (getClosestNodesTo kbucket [2] 1 answeredOne))
     = kb_add kbucket \<lparr>contact_id = [2], dhtNode = Some 1\<rparr> (bucket answeredOne) \<and>
   neighborList (snd (getClosestNodesTo kbucket [2] 1 answeredOne))
     = addContact \<lparr>contact_id = [2], dhtNode = Some 1\<rparr> (neighborList answeredOne) \<and>
   [2] \<notin> set (map contact_id (fst (getClosestNodesTo kbucket [2] 1 answeredOne)))"
proof -
  have g: "kb_get kbucket [2] (bucket answeredOne) = None"
    unfolding answeredOne_def by code_simp
  have r: "routed 0 (root (bucket answeredOne))"
    unfolding answeredOne_def by code_simp
  have v: "fst (getClosestNodesTo kbucket [2] 1 answeredOne) = [\<lparr>contact_id = [1], dhtNode = Some 1\<rparr>]"
    unfolding answeredOne_def by code_simp
  from getClosestNodesTo_unknown_id[of kbucket "[2]" answeredOne 1 answeredOne] g r v
  show ?thesis by simp
qed

text \<open>
  C6. A call of \<open>joinDht\<close> whose entry point has the id of the node itself returns
  without an error and leaves every node as it was: the bucket, the neighbor list and
  both counters of the node. A second call from there does the same.
\<close>

theorem joinDht_self_is_noop:
  assumes "self < length net" and "entryPoint < length net"
    and "ownId (net ! entryPoint) = ownId (net ! self)"
  shows "joinDht ops self entryPoint net = Some (Inr net) \<and>
         Option.bind (joinDht ops self entryPoint net)
           (\<lambda>r. case r of Inl e \<Rightarrow> Some (Inl e) | Inr net' \<Rightarrow> joinDht ops self entryPoint net')
           = Some (Inr net)"
  using assms by (simp add: joinDht_def getContact_def)

theorem joinDht_self_is_noop_witness:
  "(0::nat) < length exampleNet \<and> ownId (exampleNet ! 0) = ownId (exampleNet ! 0) \<and>
   joinDht kbucket 0 0 exampleNet = Some (Inr exampleNet) \<and>
   Option.bind (joinDht kbucket 0 0 exampleNet)
     (\<lambda>r. case r of Inl e \<Rightarrow> Some (Inl e) | Inr net' \<Rightarrow> joinDht kbucket 0 0 net')
     = Some (Inr exampleNet)"
proof -
  have l: "(0::nat) < length exampleNet" by (simp add: exampleNet_def)
  from joinDht_self_is_noop[OF l l refl, of kbucket] l show ?thesis by simp
qed

section \<open>The invariant of the SortedContactList\<close>

lemma insertSorted_length: "length (insertSorted own x xs) = Suc (length xs)"
  by (induction xs) auto

lemma insertSorted_set: "set (insertSorted own x xs) = insert x (set xs)"
  by (induction xs) auto

lemma insertSorted_sorted:
  "sorted (map (\<lambda>e. distance own (entryId e)) xs) \<Longrightarrow>
   sorted (map (\<lambda>e. distance own (entryId e)) (insertSorted own x xs))"
  by (induction xs) (auto simp: insertSorted_set)

lemma insertSorted_distinct:
  "distinct (map entryId xs) \<Longrightarrow> entryId x \<notin> set (map entryId xs) \<Longrightarrow>
   distinct (map entryId (insertSorted own x xs))"
  by (induction xs) (auto simp: insertSorted_set)

lemma evict_length: "length xs \<le> Suc K \<Longrightarrow> length (evict xs) \<le> K"
  by (auto simp: evict_def)

lemma evict_sorted: "sorted (map f xs) \<Longrightarrow> sorted (map f (evict xs))"
  by (cases "xs = []") (auto simp: evict_def map_butlast sorted_butlast)

lemma evict_distinct: "distinct (map f xs) \<Longrightarrow> distinct (map f (evict xs))"
  by (auto simp: evict_def map_butlast distinct_butlast)

lemma entryId_new: "entryId \<lparr>contact = c, contacted = a, active = b\<rparr> = contact_id c"
  by (simp add: entryId_def)

lemma listInv_addContact: "listInv l \<Longrightarrow> listInv (addContact c l)"
proof (cases "contact_id c \<in> set (map entryId (contacts l))")
  case True
  assume "listInv l"
  with True show ?thesis by (simp add: addContact_def)
next
  case False
  assume inv: "listInv l"
  let ?x = "\<lparr>contact = c, contacted = False, active = False\<rparr>"
  let ?zs = "insertSorted (listOwnId l) ?x (contacts l)"
  have 1: "length (evict ?zs) \<le> K"
    using inv by (intro evict_length) (simp add: insertSorted_length listInv_def)
  have 2: "sorted (map (\<lambda>e. distance (listOwnId l) (entryId e)) (evict ?zs))"
    using inv by (intro evict_sorted insertSorted_sorted) (simp add: listInv_def contactDistances_def)
  have "entryId ?x \<notin> set (map entryId (contacts l))"
    using False by (simp add: entryId_new)
  then have 3: "distinct (map entryId (evict ?zs))"
    using inv by (intro evict_distinct insertSorted_distinct) (simp_all add: listInv_def contactIds_def)
  from False 1 2 3 show ?thesis
    by (simp add: listInv_def addContact_def contactDistances_def contactIds_def)
qed

lemma listInv_addContacts: "listInv l \<Longrightarrow> listInv (addContacts cs l)"
  unfolding addContacts_def by (induction cs arbitrary: l) (auto simp: listInv_addContact)

lemma entryId_flags:
  "map entryId (map (\<lambda>e. if entryId e = i then e\<lparr>contacted := True\<rparr> else e) xs) = map entryId xs"
  "map entryId (map (\<lambda>e. if entryId e = i then e\<lparr>active := True\<rparr> else e) xs) = map entryId xs"
  by (induction xs) (auto simp: entryId_def)

lemma distance_flags:
  "map (\<lambda>e. distance own (entryId e)) (map (\<lambda>e. if entryId e = i then e\<lparr>contacted := True\<rparr> else e) xs)
     = map (\<lambda>e. distance own (entryId e)) xs"
  "map (\<lambda>e. distance own (entryId e)) (map (\<lambda>e. if entryId e = i then e\<lparr>active := True\<rparr> else e) xs)
     = map (\<lambda>e. distance own (entryId e)) xs"
  by (induction xs) (auto simp: entryId_def)

lemma listInv_setContacted: "listInv l \<Longrightarrow> listInv (setContacted i l)"
  unfolding listInv_def setContacted_def contactDistances_def contactIds_def
  by (simp add: entryId_flags distance_flags del: map_map)

lemma listInv_setActive: "listInv l \<Longrightarrow> listInv (setActive i l)"
  unfolding listInv_def setActive_def contactDistances_def contactIds_def
  by (simp add: entryId_flags distance_flags del: map_map)

lemma listInv_applyOp: "listInv l \<Longrightarrow> listInv (applyOp p l)"
  by (cases p) (simp_all add: listInv_addContact listInv_addContacts listInv_setContacted listInv_setActive)

lemma listInv_fold: "listInv l \<Longrightarrow> listInv (fold applyOp ops l)"
  by (induction ops arbitrary: l) (auto simp: listInv_applyOp)

lemma listInv_listAfter: "listInv (listAfter own ops)"
  unfolding listAfter_def
  by (rule listInv_fold) (simp add: listInv_def newSortedContactList_def contactDistances_def contactIds_def)

lemma listOwnId_applyOp: "listOwnId (applyOp p l) = listOwnId l"
proof (cases p)
  case (AddContacts cs)
  have "listOwnId (fold addContact cs l) = listOwnId l"
    by (induction cs arbitrary: l) (auto simp: addContact_def)
  with AddContacts show ?thesis by (simp add: addContacts_def)
qed (auto simp: addContact_def setContacted_def setActive_def)

lemma listOwnId_listAfter: "listOwnId (listAfter own ops) = own"
proof -
  have "listOwnId (fold applyOp ops l) = listOwnId l" for l
    by (induction ops arbitrary: l) (auto simp: listOwnId_applyOp)
  then show ?thesis by (simp add: listAfter_def newSortedContactList_def)
qed

lemma butlast_insertSorted:
  "xs \<noteq> [] \<Longrightarrow> distance own (entryId x) < distance own (entryId (last xs)) \<Longrightarrow>
   butlast (insertSorted own x xs) = insertSorted own x (butlast xs)"
proof (induction xs)
  case Nil
  then show ?case by simp
next
  case (Cons y ys)
  show ?case
  proof (cases ys)
    case Nil
    with Cons.prems show ?thesis by simp
  next
    case (Cons z zs)
    with Cons.prems Cons.IH have "butlast (insertSorted own x ys) = insertSorted own x (butlast ys)"
      by simp
    moreover have "insertSorted own x ys \<noteq> []" using Cons by simp
    ultimately show ?thesis using Cons by simp
  qed
qed


text \<open>
  C7 (on the list as the spec describes it). After every sequence of \<open>addContact\<close>,
  \<open>addContacts\<close>, \<open>setContacted\<close> and \<open>setActive\<close> on a new list, the list has at
  most \<open>K\<close> entries and they are sorted by ascending distance to the owner id. Adding
  a contact whose id is present leaves the list as it is. Adding a contact with a new
  id to a list of \<open>K\<close> entries, strictly closer to the owner than the last entry,
  removes the last entry and inserts the contact.
\<close>

theorem SortedContactList_bounded_and_sorted:
  "length (contacts (listAfter own ops)) \<le> K \<and>
   sorted (contactDistances (listAfter own ops)) \<and>
   (contact_id c \<in> set (contactIds (listAfter own ops)) \<longrightarrow>
      addContact c (listAfter own ops) = listAfter own ops) \<and>
   (length (contacts (listAfter own ops)) = K \<and>
    contact_id c \<notin> set (contactIds (listAfter own ops)) \<and>
    distance own (contact_id c)
      < distance own (entryId (last (contacts (listAfter own ops)))) \<longrightarrow>
      contacts (addContact c (listAfter own ops))
        = insertSorted own (newEntry c) (butlast (contacts (listAfter own ops))) \<and>
      contact_id c \<in> set (contactIds (addContact c (listAfter own ops))) \<and>
      entryId (last (contacts (listAfter own ops)))
        \<notin> set (contactIds (addContact c (listAfter own ops))) \<and>
      length (contacts (addContact c (listAfter own ops))) = K)"
proof -
  let ?l = "listAfter own ops"
  have inv: "listInv ?l" by (rule listInv_listAfter)
  have own: "listOwnId ?l = own" by (rule listOwnId_listAfter)
  have 1: "length (contacts ?l) \<le> K" "sorted (contactDistances ?l)"
    using inv by (simp_all add: listInv_def)
  have 2: "contact_id c \<in> set (contactIds ?l) \<longrightarrow> addContact c ?l = ?l"
    by (simp add: addContact_def contactIds_def)
  have 3: "contacts (addContact c ?l) = insertSorted own (newEntry c) (butlast (contacts ?l)) \<and>
      contact_id c \<in> set (contactIds (addContact c ?l)) \<and>
      entryId (last (contacts ?l)) \<notin> set (contactIds (addContact c ?l)) \<and>
      length (contacts (addContact c ?l)) = K"
    if full: "length (contacts ?l) = K" and new: "contact_id c \<notin> set (contactIds ?l)"
      and near: "distance own (contact_id c) < distance own (entryId (last (contacts ?l)))"
  proof -
    let ?xs = "contacts ?l"
    from full have ne: "?xs \<noteq> []" by (auto simp: K_def)
    have near': "distance own (entryId (newEntry c)) < distance own (entryId (last ?xs))"
      using near by (simp add: newEntry_def entryId_new)
    have ev: "evict (insertSorted own (newEntry c) ?xs) = insertSorted own (newEntry c) (butlast ?xs)"
      using full butlast_insertSorted[OF ne near'] by (simp add: evict_def insertSorted_length)
    have a: "contacts (addContact c ?l) = insertSorted own (newEntry c) (butlast ?xs)"
      using new ev own by (simp add: addContact_def contactIds_def newEntry_def)
    have ids: "set (contactIds (addContact c ?l)) = insert (contact_id c) (set (map entryId (butlast ?xs)))"
      by (simp add: contactIds_def a insertSorted_set newEntry_def entryId_new)
    have "distinct (map entryId ?xs)" using inv by (simp add: listInv_def contactIds_def)
    with ne have "entryId (last ?xs) \<notin> set (map entryId (butlast ?xs))"
      by (metis append_butlast_last_id distinct_append map_append list.simps(8,9) list.set_intros(1) disjoint_iff)
    moreover have "entryId (last ?xs) \<noteq> contact_id c"
    proof
      assume eq: "entryId (last ?xs) = contact_id c"
      from last_in_set[OF ne] have "entryId (last ?xs) \<in> set (map entryId ?xs)" by simp
      with eq new show False by (simp add: contactIds_def)
    qed
    ultimately have b: "entryId (last ?xs) \<notin> set (contactIds (addContact c ?l))"
      unfolding ids by simp
    have c: "length (contacts (addContact c ?l)) = K"
      using full ne by (simp add: a insertSorted_length K_def)
    from a b c ids show ?thesis by simp
  qed
  from 1 2 3 show ?thesis by blast
qed

theorem SortedContactList_bounded_and_sorted_witness:
  "contactIds fullList = [[2], [3], [4], [5], [6], [7], [8], [9]] \<and>
   length (contacts fullList) = K \<and>
   addContact \<lparr>contact_id = [3], dhtNode = None\<rparr> fullList = fullList \<and>
   distance [0] [1] < distance [0] (entryId (last (contacts fullList))) \<and>
   contactIds (addContact \<lparr>contact_id = [1], dhtNode = None\<rparr> fullList)
     = [[1], [2], [3], [4], [5], [6], [7], [8]] \<and>
   [9] \<notin> set (contactIds (addContact \<lparr>contact_id = [1], dhtNode = None\<rparr> fullList))"
proof -
  let ?c3 = "\<lparr>contact_id = [3], dhtNode = None\<rparr>"
  let ?c1 = "\<lparr>contact_id = [1], dhtNode = None\<rparr>"
  have i: "contactIds fullList = [[2], [3], [4], [5], [6], [7], [8], [9]]"
    unfolding fullList_def by code_simp
  have k: "length (contacts fullList) = K"
    unfolding fullList_def by code_simp
  have d: "distance [0] [1] < distance [0] (entryId (last (contacts fullList)))"
    unfolding fullList_def by code_simp
  have l: "entryId (last (contacts fullList)) = [9]"
    unfolding fullList_def by code_simp
  have e: "contactIds (addContact ?c1 fullList) = [[1], [2], [3], [4], [5], [6], [7], [8]]"
    unfolding fullList_def by code_simp
  have h3: "contact_id ?c3 \<in> set (contactIds fullList)" by (simp add: i)
  have h1: "length (contacts fullList) = K \<and> contact_id ?c1 \<notin> set (contactIds fullList) \<and>
      distance [0] (contact_id ?c1) < distance [0] (entryId (last (contacts fullList)))"
    using k d by (simp add: i)
  note t = SortedContactList_bounded_and_sorted[where own = "[0]" and
    ops = "[AddContacts (map (\<lambda>k. \<lparr>contact_id = [of_nat k], dhtNode = Some k\<rparr>) [2..<11]),
            SetContacted [3], SetActive [3]]", folded fullList_def]
  from t[of ?c3] h3 have a: "addContact ?c3 fullList = fullList" by blast
  from t[of ?c1] h1 have "entryId (last (contacts fullList)) \<notin> set (contactIds (addContact ?c1 fullList))"
    by blast
  note b = this[unfolded l]
  show ?thesis by (rule conjI[OF i conjI[OF k conjI[OF a conjI[OF d conjI[OF e b]]]]])
qed

section \<open>Duplicates and unsubscribing in the gossip overlay\<close>

lemma publish_novel:
  assumes "messageId m \<notin> set (dedupCache n)"
  shows "publish m src n =
     ((if streamPartOf m \<in> set (subscriptions n)
       then n\<lparr>dedupCache := take (dedupCapacity n) (messageId m # dedupCache n),
              delivered := delivered n @ [m]\<rparr>
       else n\<lparr>dedupCache := take (dedupCapacity n) (messageId m # dedupCache n)\<rparr>),
      filter (\<lambda>q. Some q \<noteq> src) (neighbors n (streamPartOf m)))"
  using assms by (simp add: publish_def checkAndInsert_def)

lemma publish_seen:
  assumes "messageId m \<in> set (dedupCache n)"
  shows "publish m src n = (n, [])"
  using assms by (simp add: publish_def checkAndInsert_def)

text \<open>
  C8 (on the overlay as the spec describes it). A node with a cache of at least one
  entry, subscribed to the partition of a message whose identity it has not seen,
  receives the message and then a message of the same identity again, from any two
  sources: the local listeners get the message exactly once, the second arrival is
  forwarded to nobody, and the first is forwarded at most once to each neighbor, all of
  them neighbors on the partition of the message.
\<close>

theorem duplicate_is_suppressed:
  assumes "0 < dedupCapacity n"
    and "messageId m \<notin> set (dedupCache n)"
    and "streamPartOf m \<in> set (subscriptions n)"
    and "distinct (neighbors n (streamPartOf m))"
    and "messageId m' = messageId m"
  shows "delivered (fst (publish m' s2 (fst (publish m s1 n)))) = delivered n @ [m] \<and>
         snd (publish m' s2 (fst (publish m s1 n))) = [] \<and>
         distinct (snd (publish m s1 n) @ snd (publish m' s2 (fst (publish m s1 n)))) \<and>
         set (snd (publish m s1 n)) \<subseteq> set (neighbors n (streamPartOf m))"
proof -
  let ?n1 = "fst (publish m s1 n)"
  have n1: "?n1 = n\<lparr>dedupCache := take (dedupCapacity n) (messageId m # dedupCache n),
                     delivered := delivered n @ [m]\<rparr>"
    and f1: "snd (publish m s1 n) = filter (\<lambda>q. Some q \<noteq> s1) (neighbors n (streamPartOf m))"
    using assms(3) by (simp_all add: publish_novel[OF assms(2)])
  obtain k where k: "dedupCapacity n = Suc k" using assms(1) by (cases "dedupCapacity n") auto
  have seen: "messageId m' \<in> set (dedupCache ?n1)"
    by (simp add: n1 k assms(5))
  have second: "publish m' s2 ?n1 = (?n1, [])"
    by (rule publish_seen[OF seen])
  show ?thesis
    using assms(4) by (simp add: second f1) (simp add: n1)
qed

theorem duplicate_is_suppressed_witness:
  "peers testOverlay ''b'' = Some testNode \<and>
   0 < dedupCapacity testNode \<and>
   messageId (testMessage 1) \<notin> set (dedupCache testNode) \<and>
   streamPartOf (testMessage 1) \<in> set (subscriptions testNode) \<and>
   distinct (neighbors testNode (streamPartOf (testMessage 1))) \<and>
   snd (publish (testMessage 1) None testNode) = [''a''] \<and>
   (delivered (fst (publish (testMessage 1) (Some ''a'') (fst (publish (testMessage 1) None testNode))))
      = delivered testNode @ [testMessage 1] \<and>
    snd (publish (testMessage 1) (Some ''a'') (fst (publish (testMessage 1) None testNode))) = [] \<and>
    distinct (snd (publish (testMessage 1) None testNode)
              @ snd (publish (testMessage 1) (Some ''a'') (fst (publish (testMessage 1) None testNode)))) \<and>
    set (snd (publish (testMessage 1) None testNode))
      \<subseteq> set (neighbors testNode (streamPartOf (testMessage 1))))"
proof -
  have "peers testOverlay ''b'' \<noteq> None" by code_simp
  then have p: "peers testOverlay ''b'' = Some testNode" by (auto simp: testNode_def)
  have h1: "0 < dedupCapacity testNode" unfolding testNode_def by code_simp
  have h2: "messageId (testMessage 1) \<notin> set (dedupCache testNode)"
    unfolding testNode_def by code_simp
  have h3: "streamPartOf (testMessage 1) \<in> set (subscriptions testNode)"
    unfolding testNode_def by code_simp
  have h4: "distinct (neighbors testNode (streamPartOf (testMessage 1)))"
    unfolding testNode_def by code_simp
  have f: "snd (publish (testMessage 1) None testNode) = [''a'']"
    unfolding testNode_def by code_simp
  note t = duplicate_is_suppressed[OF h1 h2 h3 h4 refl, where ?s1.0 = None and ?s2.0 = "Some ''a''"]
  show ?thesis
    by (rule conjI[OF p conjI[OF h1 conjI[OF h2 conjI[OF h3 conjI[OF h4 conjI[OF f t]]]]]])
qed

lemma propagate_Nil: "propagate [] ov = Some ov"
  by (subst propagate.simps) simp

lemma propagate_Cons:
  "peers ov target = Some n \<Longrightarrow>
   propagate ((target, source, m) # rest) ov =
     propagate (rest @ map (\<lambda>q. (q, target, m)) (snd (publish m (Some source) n)))
       (ov\<lparr>peers := (peers ov)(target \<mapsto> fst (publish m (Some source) n))\<rparr>)"
  by (subst propagate.simps) simp

text \<open>
  C9 (on the overlay as the spec describes it). Two nodes \<open>a\<close> and \<open>b\<close> are each
  other's only neighbor on two partitions \<open>p1\<close> and \<open>p2\<close>, to which both are
  subscribed. After \<open>b\<close> unsubscribes from \<open>p2\<close> the connection between them is still
  open; a message on \<open>p2\<close> that \<open>a\<close> publishes does not reach the listeners of \<open>b\<close>;
  a message on \<open>p1\<close> that \<open>a\<close> publishes next reaches them, as it does when \<open>b\<close> has
  not unsubscribed.
\<close>

theorem unsubscribe_keeps_other_partition:
  assumes ab: "a \<noteq> b" and p: "p1 \<noteq> p2"
    and na: "peers ov a = Some na" and nb: "peers ov b = Some nb"
    and nba: "neighbors na p1 = [b]" "neighbors na p2 = [b]"
    and nbb: "neighbors nb p1 = [a]" "neighbors nb p2 = [a]"
    and sa: "p1 \<in> set (subscriptions na)" "p2 \<in> set (subscriptions na)"
    and sb: "p1 \<in> set (subscriptions nb)" "p2 \<in> set (subscriptions nb)"
    and ca: "b \<in> set (connections na)" and cb: "a \<in> set (connections nb)"
    and m1: "streamPartOf m1 = p1" "messageId m1 \<notin> set (dedupCache na)"
            "messageId m1 \<notin> set (dedupCache nb)"
    and m2: "streamPartOf m2 = p2" "messageId m2 \<notin> set (dedupCache na)"
  shows "\<exists>na' nb' ov2 ov3 ov1.
           peers (unsubscribe b p2 ov) a = Some na' \<and> b \<in> set (connections na') \<and>
           peers (unsubscribe b p2 ov) b = Some nb' \<and> a \<in> set (connections nb') \<and>
           p2 \<notin> set (subscriptions nb') \<and> p1 \<in> set (subscriptions nb') \<and>
           publishToNode a m2 (unsubscribe b p2 ov) = Some ov2 \<and>
           deliveredTo b ov2 = deliveredTo b ov \<and>
           publishToNode a m1 ov2 = Some ov3 \<and>
           deliveredTo b ov3 = deliveredTo b ov @ [m1] \<and>
           publishToNode a m1 ov = Some ov1 \<and>
           deliveredTo b ov1 = deliveredTo b ov @ [m1]"
proof -
  define nb1 where "nb1 = nb\<lparr>subscriptions := removeAll p2 (subscriptions nb),
                              neighbors := (neighbors nb)(p2 := [])\<rparr>"
  define na1 where "na1 = na\<lparr>neighbors := (neighbors na)(p2 := [])\<rparr>"
  have sh_b: "sharesPartition a nb1"
    unfolding sharesPartition_def list_ex_iff
  proof (rule bexI[of _ p1])
    show "a \<in> set (neighbors nb1 p1)" using p nbb(1) by (simp add: nb1_def)
    show "p1 \<in> set (subscriptions nb1)" using sb(1) p by (simp add: nb1_def)
  qed
  have sh_a: "sharesPartition b na1"
    unfolding sharesPartition_def list_ex_iff
  proof (rule bexI[of _ p1])
    show "b \<in> set (neighbors na1 p1)" using p nba(1) by (simp add: na1_def)
    show "p1 \<in> set (subscriptions na1)" using sa(1) by (simp add: na1_def)
  qed
  define u where "u = ov\<lparr>registered := removeAll (b, p2) (registered ov),
                         peers := (peers ov)(b \<mapsto> nb1, a \<mapsto> na1)\<rparr>"
  have uns: "unsubscribe b p2 ov = u"
    using ab na nb nbb(2) nba(2) sh_a sh_b
    by (simp add: unsubscribe_def onPeer_def closeUnshared_def dropNeighbor_def Let_def
        nb1_def[symmetric] na1_def[symmetric] u_def)
  have ua: "peers u a = Some na1" and ub: "peers u b = Some nb1"
    using ab by (simp_all add: u_def)
  \<comment> \<open>the message on \<open>p2\<close>\<close>
  define na2 where "na2 = na1\<lparr>dedupCache := take (dedupCapacity na1) (messageId m2 # dedupCache na1),
                               delivered := delivered na1 @ [m2]\<rparr>"
  have fresh2: "messageId m2 \<notin> set (dedupCache na1)"
    using m2(2) by (simp add: na1_def)
  have pub2: "publish m2 None na1 = (na2, [])"
    unfolding publish_novel[OF fresh2] using m2(1) sa(2) by (simp add: na1_def na2_def)
  define ov2 where "ov2 = u\<lparr>peers := (peers u)(a \<mapsto> na2)\<rparr>"
  have r2: "publishToNode a m2 u = Some ov2"
    by (simp add: publishToNode_def ua pub2 propagate_Nil ov2_def)
  have d2: "deliveredTo b ov2 = deliveredTo b ov"
    using ab nb by (simp add: deliveredTo_def ov2_def u_def nb1_def)
  \<comment> \<open>the message on \<open>p1\<close>\<close>
  have ne: "messageId m1 \<noteq> messageId m2"
    using m1(1) m2(1) p by (auto simp: streamPartOf_def)
  have fresh: "messageId m1 \<notin> set (dedupCache na2)"
    using m1(2) ne by (auto simp: na2_def na1_def dest: in_set_takeD)
  define na3 where "na3 = na2\<lparr>dedupCache := take (dedupCapacity na2) (messageId m1 # dedupCache na2),
                               delivered := delivered na2 @ [m1]\<rparr>"
  have pub1: "publish m1 None na2 = (na3, [b])"
    unfolding publish_novel[OF fresh] using m1(1) sa(1) nba(1) p
    by (simp add: na3_def na2_def na1_def)
  define nb3 where "nb3 = nb1\<lparr>dedupCache := take (dedupCapacity nb1) (messageId m1 # dedupCache nb1),
                               delivered := delivered nb1 @ [m1]\<rparr>"
  have freshb: "messageId m1 \<notin> set (dedupCache nb1)"
    using m1(3) by (simp add: nb1_def)
  have rec1: "publish m1 (Some a) nb1 = (nb3, [])"
    unfolding publish_novel[OF freshb] using m1(1) sb(1) nbb(1) p
    by (simp add: nb3_def nb1_def)
  define ov3 where "ov3 = ov2\<lparr>peers := (peers ov2)(a \<mapsto> na3, b \<mapsto> nb3)\<rparr>"
  have a2: "peers ov2 a = Some na2" by (simp add: ov2_def)
  have b2: "peers (ov2\<lparr>peers := (peers ov2)(a \<mapsto> na3)\<rparr>) b = Some nb1"
    using ab ub by (simp add: ov2_def)
  have r3: "publishToNode a m1 ov2 = Some ov3"
    by (simp add: publishToNode_def a2 pub1 propagate_Cons[OF b2] rec1 propagate_Nil ov3_def)
  have d3: "deliveredTo b ov3 = deliveredTo b ov @ [m1]"
    using nb by (simp add: deliveredTo_def ov3_def nb3_def nb1_def)
  \<comment> \<open>the message on \<open>p1\<close> without the unsubscribe\<close>
  define na4 where "na4 = na\<lparr>dedupCache := take (dedupCapacity na) (messageId m1 # dedupCache na),
                              delivered := delivered na @ [m1]\<rparr>"
  define nb4 where "nb4 = nb\<lparr>dedupCache := take (dedupCapacity nb) (messageId m1 # dedupCache nb),
                              delivered := delivered nb @ [m1]\<rparr>"
  have pub4: "publish m1 None na = (na4, [b])"
    unfolding publish_novel[OF m1(2)] using m1(1) sa(1) nba(1) by (simp add: na4_def)
  have rec4: "publish m1 (Some a) nb = (nb4, [])"
    unfolding publish_novel[OF m1(3)] using m1(1) sb(1) nbb(1) by (simp add: nb4_def)
  define ov1 where "ov1 = ov\<lparr>peers := (peers ov)(a \<mapsto> na4, b \<mapsto> nb4)\<rparr>"
  have b4: "peers (ov\<lparr>peers := (peers ov)(a \<mapsto> na4)\<rparr>) b = Some nb"
    using ab nb by simp
  have r1: "publishToNode a m1 ov = Some ov1"
    by (simp add: publishToNode_def na pub4 propagate_Cons[OF b4] rec4 propagate_Nil ov1_def)
  have d1: "deliveredTo b ov1 = deliveredTo b ov @ [m1]"
    using nb by (simp add: deliveredTo_def ov1_def nb4_def)
  have c1: "b \<in> set (connections na1)" using ca by (simp add: na1_def)
  have c2: "a \<in> set (connections nb1)" using cb by (simp add: nb1_def)
  have s1: "p2 \<notin> set (subscriptions nb1)" "p1 \<in> set (subscriptions nb1)"
    using sb(1) p by (simp_all add: nb1_def)
  from ua ub c1 c2 s1 r2 d2 r3 d3 r1 d1 show ?thesis
    unfolding uns by blast
qed


theorem unsubscribe_keeps_other_partition_witness:
  "''a'' \<noteq> ''b'' \<and> (''s'', 1::nat) \<noteq> (''s'', 2) \<and>
   peers testOverlay ''a'' = Some testNodeA \<and> peers testOverlay ''b'' = Some testNode \<and>
   deliveredTo ''b'' testOverlay = [] \<and>
   Option.bind (publishToNode ''a'' (testMessage 2) (unsubscribe ''b'' (''s'', 2) testOverlay))
     (\<lambda>ov. map_option (deliveredTo ''b'') (publishToNode ''a'' (testMessage 1) ov))
     = Some [testMessage 1] \<and>
   (\<exists>na' nb' ov2 ov3 ov1.
      peers (unsubscribe ''b'' (''s'', 2) testOverlay) ''a'' = Some na' \<and>
      ''b'' \<in> set (connections na') \<and>
      peers (unsubscribe ''b'' (''s'', 2) testOverlay) ''b'' = Some nb' \<and>
      ''a'' \<in> set (connections nb') \<and>
      (''s'', 2) \<notin> set (subscriptions nb') \<and> (''s'', 1) \<in> set (subscriptions nb') \<and>
      publishToNode ''a'' (testMessage 2) (unsubscribe ''b'' (''s'', 2) testOverlay) = Some ov2 \<and>
      deliveredTo ''b'' ov2 = deliveredTo ''b'' testOverlay \<and>
      publishToNode ''a'' (testMessage 1) ov2 = Some ov3 \<and>
      deliveredTo ''b'' ov3 = deliveredTo ''b'' testOverlay @ [testMessage 1] \<and>
      publishToNode ''a'' (testMessage 1) testOverlay = Some ov1 \<and>
      deliveredTo ''b'' ov1 = deliveredTo ''b'' testOverlay @ [testMessage 1])"
proof -
  have ab: "''a'' \<noteq> ''b''" by simp
  have p: "(''s'', 1::nat) \<noteq> (''s'', 2)" by simp
  have "peers testOverlay ''a'' \<noteq> None" by code_simp
  then have na: "peers testOverlay ''a'' = Some testNodeA" by (auto simp: testNodeA_def)
  have "peers testOverlay ''b'' \<noteq> None" by code_simp
  then have nb: "peers testOverlay ''b'' = Some testNode" by (auto simp: testNode_def)
  have nba: "neighbors testNodeA (''s'', 1) = [''b'']" "neighbors testNodeA (''s'', 2) = [''b'']"
    unfolding testNodeA_def by code_simp+
  have nbb: "neighbors testNode (''s'', 1) = [''a'']" "neighbors testNode (''s'', 2) = [''a'']"
    unfolding testNode_def by code_simp+
  have sa: "(''s'', 1) \<in> set (subscriptions testNodeA)" "(''s'', 2) \<in> set (subscriptions testNodeA)"
    unfolding testNodeA_def by code_simp+
  have sb: "(''s'', 1) \<in> set (subscriptions testNode)" "(''s'', 2) \<in> set (subscriptions testNode)"
    unfolding testNode_def by code_simp+
  have ca: "''b'' \<in> set (connections testNodeA)" unfolding testNodeA_def by code_simp
  have cb: "''a'' \<in> set (connections testNode)" unfolding testNode_def by code_simp
  have m1: "streamPartOf (testMessage 1) = (''s'', 1)"
    "messageId (testMessage 1) \<notin> set (dedupCache testNodeA)"
    "messageId (testMessage 1) \<notin> set (dedupCache testNode)"
    unfolding testNodeA_def testNode_def by code_simp+
  have m2: "streamPartOf (testMessage 2) = (''s'', 2)"
    "messageId (testMessage 2) \<notin> set (dedupCache testNodeA)"
    unfolding testNodeA_def by code_simp+
  have d: "deliveredTo ''b'' testOverlay = []" by code_simp
  have e: "Option.bind (publishToNode ''a'' (testMessage 2) (unsubscribe ''b'' (''s'', 2) testOverlay))
     (\<lambda>ov. map_option (deliveredTo ''b'') (publishToNode ''a'' (testMessage 1) ov))
     = Some [testMessage 1]" by code_simp
  note t = unsubscribe_keeps_other_partition[OF ab p na nb nba nbb sa sb ca cb m1 m2]
  show ?thesis
    by (rule conjI[OF ab conjI[OF p conjI[OF na conjI[OF nb conjI[OF d conjI[OF e t]]]]]])
qed

end
